theory Spec2Isabelle
  imports Main "HOL-Library.AList"
begin

text \<open>
  A shallow embedding of the package \<^verbatim>\<open>buffer\<close>: the pool of byte chunks
  (\<^verbatim>\<open>putBuf\<close>, \<^verbatim>\<open>getBuf\<close>), the growable \<^verbatim>\<open>Buffer\<close> with its appends and
  its finalizers, and the reference-counted reader (\<^verbatim>\<open>recyclable\<close>,
  \<^verbatim>\<open>recyclableReadCloser\<close>). Each definition carries the name of the Go function it
  embeds; a method whose name two receivers share is prefixed with its receiver
  (\<open>Buffer_WriteTo\<close>, \<open>Buffer_BuildBytes\<close>, \<open>recyclable_Recycle\<close>), and the fields of
  the two reader structs with \<open>rc_\<close> and \<open>r_\<close>. A panic is a result \<open>Inl\<close>; a loop
  that need not end returns an \<open>option\<close>, \<open>None\<close> when it does not return.
\<close>

section \<open>Chunks, configuration and the chunk pool\<close>

text \<open>
  A Go byte is modelled by \<^typ>\<open>char\<close> (eight bits; no arithmetic is done on bytes).
  A Go slice \<^verbatim>\<open>[]byte\<close> is modelled by its visible elements and the spare capacity
  behind them, so that every value of the type is a slice Go can hold
  (\<^verbatim>\<open>len \<le> cap\<close>). The nil slice is the slice with no elements and no capacity.
\<close>

type_synonym byte = char

record chunk =
  elems :: "byte list"
  spare :: nat

definition len_of :: "chunk \<Rightarrow> nat" where
  "len_of c = length (elems c)"

definition cap_of :: "chunk \<Rightarrow> nat" where
  "cap_of c = length (elems c) + spare c"

definition nil_chunk :: chunk where
  "nil_chunk = \<lparr>elems = [], spare = 0\<rparr>"

text \<open>\<^verbatim>\<open>make([]byte, 0, n)\<close> for \<open>n \<ge> 0\<close>, and the reslicing \<^verbatim>\<open>buf[:0]\<close>.\<close>

definition make_chunk :: "nat \<Rightarrow> chunk" where
  "make_chunk n = \<lparr>elems = [], spare = n\<rparr>"

definition reslice0 :: "chunk \<Rightarrow> chunk" where
  "reslice0 c = \<lparr>elems = [], spare = cap_of c\<rparr>"

datatype panic = MakeSliceCap | NilDereference | SliceBounds

datatype error = EOF | closedErr | SinkError nat

record PoolConfig =
  StartSize :: int
  PooledSize :: int
  MaxSize :: int

text \<open>
  The process-wide state of the package: the configuration, the reuse pools
  (\<^verbatim>\<open>map[int]*sync.Pool\<close>: a finite map, kept as the list of its entries and read
  with \<^const>\<open>map_of\<close>; a pool is the list of the chunks put into it), and
  the two things Go leaves to its runtime. \<open>sched\<close> lists, for the calls of
  \<^verbatim>\<open>sync.Pool.Get\<close> still to come, what each one does: \<open>None\<close> when it finds
  nothing, \<open>Some i\<close> when it hands out the \<open>i\<close>-th pooled item (nothing as well if
  there is no such item, or when the list has run out). \<open>growslice old need\<close> is the
  spare capacity \<^verbatim>\<open>append\<close> leaves behind the elements when it has to reallocate a
  slice of capacity \<open>old\<close> to hold \<open>need\<close> elements.
\<close>

record pools =
  config :: PoolConfig
  buffers :: "(int \<times> chunk list) list"
  sched :: "nat option list"
  growslice :: "nat \<Rightarrow> nat \<Rightarrow> nat"

definition next_choice :: "'a pools_scheme \<Rightarrow> nat option \<times> 'a pools_scheme" where
  "next_choice w =
     (case sched w of
        [] \<Rightarrow> (None, w)
      | c # cs \<Rightarrow> (c, w\<lparr>sched := cs\<rparr>))"

definition pool_Put :: "'x \<Rightarrow> 'x list \<Rightarrow> 'x list" where
  "pool_Put x p = x # p"

fun pool_Get :: "'x list \<Rightarrow> nat option \<Rightarrow> 'x option \<times> 'x list" where
  "pool_Get p None = (None, p)"
| "pool_Get p (Some i) =
     (if i < length p then (Some (p ! i), take i p @ drop (Suc i) p) else (None, p))"

text \<open>Go's \<^verbatim>\<open>append(c, xs...)\<close>: in place while the capacity suffices.\<close>

definition go_append :: "'a pools_scheme \<Rightarrow> chunk \<Rightarrow> byte list \<Rightarrow> chunk" where
  "go_append w c xs =
     (if length xs \<le> spare c
      then \<lparr>elems = elems c @ xs, spare = spare c - length xs\<rparr>
      else \<lparr>elems = elems c @ xs,
            spare = growslice w (cap_of c) (length (elems c) + length xs)\<rparr>)"

definition putBuf :: "'a pools_scheme \<Rightarrow> chunk \<Rightarrow> 'a pools_scheme" where
  "putBuf w buf =
     (let sz = int (cap_of buf) in
      if sz < PooledSize (config w) then w
      else (case map_of (buffers w) sz of
              Some c \<Rightarrow> w\<lparr>buffers := AList.update sz (pool_Put (reslice0 buf) c) (buffers w)\<rparr>
            | None \<Rightarrow> w))"

definition make_bytes :: "'a pools_scheme \<Rightarrow> int \<Rightarrow> panic + chunk \<times> 'a pools_scheme" where
  "make_bytes w sz = (if sz < 0 then Inl MakeSliceCap else Inr (make_chunk (nat sz), w))"

definition getBuf :: "'a pools_scheme \<Rightarrow> int \<Rightarrow> panic + chunk \<times> 'a pools_scheme" where
  "getBuf w sz =
     (if sz \<ge> PooledSize (config w) then
        (case map_of (buffers w) sz of
           Some c \<Rightarrow>
             (let (ch, w1) = next_choice w in
              case pool_Get c ch of
                (Some v, c') \<Rightarrow> Inr (v, w1\<lparr>buffers := AList.update sz c' (buffers w1)\<rparr>)
              | (None, c') \<Rightarrow> make_bytes w1 sz)
         | None \<Rightarrow> make_bytes w sz)
      else make_bytes w sz)"

section \<open>The growable buffer\<close>

text \<open>
  \<^verbatim>\<open>bufs\<close> is a slice of slices; only its elements matter here (its own capacity,
  which \<^verbatim>\<open>ensureSpaceSlow\<close> sets to 8 the first time, is not observable).
\<close>

record Buffer =
  Buf :: chunk
  toPool :: chunk
  bufs :: "chunk list"

definition new_Buffer :: Buffer where
  "new_Buffer = \<lparr>Buf = nil_chunk, toPool = nil_chunk, bufs = []\<rparr>"

definition ensureSpaceSlow ::
  "'a pools_scheme \<Rightarrow> Buffer \<Rightarrow> int \<Rightarrow> panic + 'a pools_scheme \<times> Buffer" where
  "ensureSpaceSlow w b s =
     (let l = int (len_of (Buf b));
          (w1, b1, l1) =
            (if l > 0 then
               (let w' = (if cap_of (toPool b) \<noteq> cap_of (Buf b) then putBuf w (toPool b) else w)
                in (w', b\<lparr>bufs := bufs b @ [Buf b]\<rparr>, int (cap_of (toPool b)) * 2))
             else (w, b, StartSize (config w)));
          l2 = (if l1 > MaxSize (config w1) then MaxSize (config w1) else l1)
      in case getBuf w1 l2 of
           Inl e \<Rightarrow> Inl e
         | Inr (c, w2) \<Rightarrow> Inr (w2, b1\<lparr>Buf := c, toPool := c\<rparr>))"

definition EnsureSpace ::
  "'a pools_scheme \<Rightarrow> Buffer \<Rightarrow> int \<Rightarrow> panic + 'a pools_scheme \<times> Buffer" where
  "EnsureSpace w b s =
     (if int (cap_of (Buf b)) - int (len_of (Buf b)) < s then ensureSpaceSlow w b s
      else Inr (w, b))"

definition AppendByte ::
  "'a pools_scheme \<Rightarrow> Buffer \<Rightarrow> byte \<Rightarrow> panic + 'a pools_scheme \<times> Buffer" where
  "AppendByte w b d =
     (case EnsureSpace w b 1 of
        Inl e \<Rightarrow> Inl e
      | Inr (w1, b1) \<Rightarrow> Inr (w1, b1\<lparr>Buf := go_append w1 (Buf b1) [d]\<rparr>))"

text \<open>
  The loop of \<^verbatim>\<open>appendBytesSlow\<close> runs while data is left; it need not end (a chunk
  of capacity 0 takes nothing), so not returning is the value \<open>None\<close>.
\<close>

partial_function (option) appendBytesSlow ::
  "'a pools_scheme \<Rightarrow> Buffer \<Rightarrow> byte list \<Rightarrow> (panic + 'a pools_scheme \<times> Buffer) option" where
  "appendBytesSlow w b d =
     (if length d > 0 then
        (case EnsureSpace w b 1 of
           Inl e \<Rightarrow> Some (Inl e)
         | Inr (w1, b1) \<Rightarrow>
             (let sz0 = cap_of (Buf b1) - len_of (Buf b1);
                  sz = (if sz0 > length d then length d else sz0)
              in appendBytesSlow w1 (b1\<lparr>Buf := go_append w1 (Buf b1) (take sz d)\<rparr>) (drop sz d)))
      else Some (Inr (w, b)))"

definition AppendBytes ::
  "'a pools_scheme \<Rightarrow> Buffer \<Rightarrow> byte list \<Rightarrow> (panic + 'a pools_scheme \<times> Buffer) option" where
  "AppendBytes w b d =
     (if length d \<le> cap_of (Buf b) - len_of (Buf b)
      then Some (Inr (w, b\<lparr>Buf := go_append w (Buf b) d\<rparr>))
      else appendBytesSlow w b d)"

partial_function (option) appendStringSlow ::
  "'a pools_scheme \<Rightarrow> Buffer \<Rightarrow> byte list \<Rightarrow> (panic + 'a pools_scheme \<times> Buffer) option" where
  "appendStringSlow w b d =
     (if length d > 0 then
        (case EnsureSpace w b 1 of
           Inl e \<Rightarrow> Some (Inl e)
         | Inr (w1, b1) \<Rightarrow>
             (let sz0 = cap_of (Buf b1) - len_of (Buf b1);
                  sz = (if sz0 > length d then length d else sz0)
              in appendStringSlow w1 (b1\<lparr>Buf := go_append w1 (Buf b1) (take sz d)\<rparr>) (drop sz d)))
      else Some (Inr (w, b)))"

definition AppendString ::
  "'a pools_scheme \<Rightarrow> Buffer \<Rightarrow> byte list \<Rightarrow> (panic + 'a pools_scheme \<times> Buffer) option" where
  "AppendString w b d =
     (if length d \<le> cap_of (Buf b) - len_of (Buf b)
      then Some (Inr (w, b\<lparr>Buf := go_append w (Buf b) d\<rparr>))
      else appendStringSlow w b d)"

definition Size :: "Buffer \<Rightarrow> int" where
  "Size b = foldl (\<lambda>sz buf. sz + int (len_of buf)) (int (len_of (Buf b))) (bufs b)"

text \<open>
  \<^verbatim>\<open>BuildBytes(reuse ...[]byte)\<close>: the variadic argument is the list \<open>reuse\<close>.
  The loop appends each spilled chunk to the result and releases it.
\<close>

fun BuildBytes_loop ::
  "'a pools_scheme \<Rightarrow> chunk \<Rightarrow> chunk list \<Rightarrow> 'a pools_scheme \<times> chunk" where
  "BuildBytes_loop w ret [] = (w, ret)"
| "BuildBytes_loop w ret (buf # rest) =
     BuildBytes_loop (putBuf w buf) (go_append w ret (elems buf)) rest"

definition Buffer_BuildBytes ::
  "'a pools_scheme \<Rightarrow> Buffer \<Rightarrow> chunk list \<Rightarrow> chunk \<times> 'a pools_scheme \<times> Buffer" where
  "Buffer_BuildBytes w b reuse =
     (if length (bufs b) = 0 then (Buf b, w, b\<lparr>toPool := nil_chunk, Buf := nil_chunk\<rparr>)
      else
        (let sz = Size b;
             ret0 = (if length reuse = 1 \<and> int (cap_of (reuse ! 0)) \<ge> sz
                     then reslice0 (reuse ! 0) else make_chunk (nat sz));
             (w1, ret1) = BuildBytes_loop w ret0 (bufs b);
             ret2 = go_append w1 ret1 (elems (Buf b));
             w2 = putBuf w1 (toPool b)
         in (ret2, w2, \<lparr>Buf = nil_chunk, toPool = nil_chunk, bufs = []\<rparr>)))"

subsection \<open>Flushing to a sink\<close>

text \<open>
  An \<^verbatim>\<open>io.Writer\<close> is its \<^verbatim>\<open>Write\<close> method, a function from the sink's state and
  the bytes offered to the count written, the error (if any) and the sink's next state.
  The count is a natural number, as the contract of \<^verbatim>\<open>io.Writer\<close> has it.
\<close>

type_synonym 's writer = "'s \<Rightarrow> byte list \<Rightarrow> (nat \<times> error option) \<times> 's"

text \<open>
  \<^verbatim>\<open>net.Buffers.WriteTo\<close> of the standard library, for a sink without vectored
  writes: one \<^verbatim>\<open>Write\<close> per buffer, in order, returning at the first error.
\<close>

fun net_Buffers_WriteTo ::
  "'s writer \<Rightarrow> 's \<Rightarrow> int \<Rightarrow> chunk list \<Rightarrow> (int \<times> error option) \<times> 's" where
  "net_Buffers_WriteTo wr s n [] = ((n, None), s)"
| "net_Buffers_WriteTo wr s n (buf # rest) =
     (case wr s (elems buf) of
        ((nb, err), s') \<Rightarrow>
          (if err \<noteq> None then ((n + int nb, err), s')
           else net_Buffers_WriteTo wr s' (n + int nb) rest))"

definition DumpTo ::
  "'a pools_scheme \<Rightarrow> Buffer \<Rightarrow> 's writer \<Rightarrow> 's
     \<Rightarrow> (int \<times> error option) \<times> 's \<times> 'a pools_scheme \<times> Buffer" where
  "DumpTo w b wr s =
     (let bufs1 = bufs b;
          bufs2 = (if len_of (Buf b) > 0 then bufs1 @ [Buf b] else bufs1);
          ((n, err), s') = net_Buffers_WriteTo wr s 0 bufs2;
          w1 = foldl putBuf w (bufs b);
          w2 = putBuf w1 (toPool b)
      in ((n, err), s', w2, \<lparr>Buf = nil_chunk, toPool = nil_chunk, bufs = []\<rparr>))"

text \<open>The first loop of \<^verbatim>\<open>Buffer.WriteTo\<close>, over the spilled chunks.\<close>

fun WriteTo_bufs ::
  "'s writer \<Rightarrow> 's \<Rightarrow> int \<Rightarrow> chunk list \<Rightarrow> (int \<times> error option) \<times> 's" where
  "WriteTo_bufs wr s n [] = ((n, None), s)"
| "WriteTo_bufs wr s n (buf # rest) =
     (case wr s (elems buf) of
        ((wLen, err), s') \<Rightarrow>
          (if err \<noteq> None then ((n + int wLen, err), s')
           else WriteTo_bufs wr s' (n + int wLen) rest))"

definition Buffer_WriteTo ::
  "'a pools_scheme \<Rightarrow> Buffer \<Rightarrow> 's writer \<Rightarrow> 's
     \<Rightarrow> (int \<times> error option) \<times> 's \<times> 'a pools_scheme \<times> Buffer" where
  "Buffer_WriteTo w b wr s =
     (case WriteTo_bufs wr s 0 (bufs b) of
        ((n, Some e), s') \<Rightarrow> ((n, Some e), s', w, b)
      | ((n, None), s') \<Rightarrow>
          (case wr s' (elems (Buf b)) of
             ((wLen, err), s'') \<Rightarrow>
               (let w1 = foldl putBuf w (bufs b);
                    w2 = putBuf w1 (toPool b)
                in ((n + int wLen, err), s'', w2,
                    \<lparr>Buf = nil_chunk, toPool = nil_chunk, bufs = []\<rparr>))))"

section \<open>The shared chunk set and the recyclable reader\<close>

text \<open>
  Objects reached through pointers live in a store: an address is a natural number,
  a Go pointer always denotes an object (the collector frees none that is reachable), so
  a store is a total function; addresses from \<open>recyclables_next\<close> (\<open>readers_next\<close>) on
  are the objects \<^verbatim>\<open>New\<close> has yet to allocate. A nil pointer is \<open>None\<close>.
  The atomic fields are read and written in program order. The position fields of a
  reader are Go integers that start at 0 and only ever grow by byte counts, so they are
  natural numbers here.
\<close>

record recyclable =
  rc_data :: "chunk list"
  rc_isRecycle :: int

record recyclableReadCloser =
  r_bufs :: "nat option"
  r_offset :: nat
  r_index :: nat
  r_offsetLen :: nat
  r_size :: nat
  r_isClose :: bool
  r_isRecycle :: bool

record heap = pools +
  recyclables :: "nat \<Rightarrow> recyclable"
  recyclables_next :: nat
  readers :: "nat \<Rightarrow> recyclableReadCloser"
  readers_next :: nat
  recyclableReadCloserPool :: "nat list"
  recyclablePool :: "nat list"

definition zero_recyclable :: recyclable where
  "zero_recyclable = \<lparr>rc_data = [], rc_isRecycle = 0\<rparr>"

definition zero_reader :: recyclableReadCloser where
  "zero_reader = \<lparr>r_bufs = None, r_offset = 0, r_index = 0, r_offsetLen = 0, r_size = 0,
     r_isClose = False, r_isRecycle = False\<rparr>"

text \<open>\<^verbatim>\<open>Get\<close> on the two object pools, whose \<^verbatim>\<open>New\<close> allocates a zero object.\<close>

definition recyclablePool_Get :: "heap \<Rightarrow> nat \<times> heap" where
  "recyclablePool_Get h =
     (let (ch, h1) = next_choice h in
      case pool_Get (recyclablePool h1) ch of
        (Some a, p') \<Rightarrow> (a, h1\<lparr>recyclablePool := p'\<rparr>)
      | (None, p') \<Rightarrow>
          (recyclables_next h1,
           h1\<lparr>recyclables := (recyclables h1)(recyclables_next h1 := zero_recyclable),
              recyclables_next := Suc (recyclables_next h1)\<rparr>))"

definition recyclableReadCloserPool_Get :: "heap \<Rightarrow> nat \<times> heap" where
  "recyclableReadCloserPool_Get h =
     (let (ch, h1) = next_choice h in
      case pool_Get (recyclableReadCloserPool h1) ch of
        (Some a, p') \<Rightarrow> (a, h1\<lparr>recyclableReadCloserPool := p'\<rparr>)
      | (None, p') \<Rightarrow>
          (readers_next h1,
           h1\<lparr>readers := (readers h1)(readers_next h1 := zero_reader),
              readers_next := Suc (readers_next h1)\<rparr>))"

definition newRecyclable :: "heap \<Rightarrow> chunk list \<Rightarrow> nat \<times> heap" where
  "newRecyclable h dat =
     (let (d, h1) = recyclablePool_Get h
      in (d, h1\<lparr>recyclables := (recyclables h1)(d := \<lparr>rc_data = dat, rc_isRecycle = 0 + 1\<rparr>)\<rparr>))"

definition recyclable_Recycle :: "heap \<Rightarrow> nat option \<Rightarrow> heap" where
  "recyclable_Recycle h r =
     (case r of
        None \<Rightarrow> h
      | Some a \<Rightarrow>
          (let c = rc_isRecycle (recyclables h a) - 1;
               h1 = h\<lparr>recyclables := (recyclables h)(a := (recyclables h a)\<lparr>rc_isRecycle := c\<rparr>)\<rparr>
           in if c = 0 then
                (let dat = rc_data (recyclables h1 a);
                     h2 = h1\<lparr>recyclables := (recyclables h1)(a := (recyclables h1 a)\<lparr>rc_data := []\<rparr>)\<rparr>;
                     h3 = foldl putBuf h2 dat
                 in h3\<lparr>recyclablePool := pool_Put a (recyclablePool h3)\<rparr>)
              else h1))"

definition newRecyclableReadCloser :: "heap \<Rightarrow> chunk list \<Rightarrow> nat option \<times> heap" where
  "newRecyclableReadCloser h dat =
     (let (d, h1) = recyclableReadCloserPool_Get h;
          (s, h2) = newRecyclable h1 dat
      in (Some d, h2\<lparr>readers := (readers h2)(d := zero_reader\<lparr>r_bufs := Some s\<rparr>)\<rparr>))"

definition RecyclableReader :: "heap \<Rightarrow> Buffer \<Rightarrow> nat option \<times> heap \<times> Buffer" where
  "RecyclableReader h b =
     (let (ret, h1) = newRecyclableReadCloser h (bufs b @ [Buf b])
      in (ret, h1, \<lparr>Buf = nil_chunk, toPool = nil_chunk, bufs = []\<rparr>))"

definition Len :: "heap \<Rightarrow> nat option \<Rightarrow> nat \<times> heap" where
  "Len h r =
     (case r of
        None \<Rightarrow> (0, h)
      | Some a \<Rightarrow>
          (if r_size (readers h a) > 0 then (r_size (readers h a), h)
           else (case r_bufs (readers h a) of
                   None \<Rightarrow> (0, h)
                 | Some d \<Rightarrow>
                     (let n = foldl (\<lambda>n b. n + len_of b) 0 (rc_data (recyclables h d))
                      in (n, h\<lparr>readers := (readers h)(a := (readers h a)\<lparr>r_size := n\<rparr>)\<rparr>)))))"

definition Recycle :: "heap \<Rightarrow> nat option \<Rightarrow> heap" where
  "Recycle h r =
     (case r of
        None \<Rightarrow> h
      | Some a \<Rightarrow>
          (if r_isRecycle (readers h a) then h
           else
             (let h1 = h\<lparr>readers := (readers h)(a := (readers h a)\<lparr>r_isRecycle := True\<rparr>)\<rparr>;
                  h2 = recyclable_Recycle h1 (r_bufs (readers h1 a));
                  h3 = h2\<lparr>readers := (readers h2)(a := (readers h2 a)\<lparr>r_bufs := None\<rparr>)\<rparr>
              in h3\<lparr>recyclableReadCloserPool := pool_Put a (recyclableReadCloserPool h3)\<rparr>)))"

definition Clone :: "heap \<Rightarrow> nat option \<Rightarrow> nat option \<times> heap" where
  "Clone h r =
     (case r of
        None \<Rightarrow> (None, h)
      | Some a \<Rightarrow>
          (let bufs1 = r_bufs (readers h a);
               h1 = (case bufs1 of
                       Some s \<Rightarrow>
                         h\<lparr>recyclables := (recyclables h)
                             (s := (recyclables h s)\<lparr>rc_isRecycle := rc_isRecycle (recyclables h s) + 1\<rparr>)\<rparr>
                     | None \<Rightarrow> h);
               (d, h2) = recyclableReadCloserPool_Get h1
           in (Some d, h2\<lparr>readers := (readers h2)(d := zero_reader\<lparr>r_bufs := bufs1\<rparr>)\<rparr>)))"

definition Close :: "heap \<Rightarrow> nat option \<Rightarrow> error option \<times> heap" where
  "Close h r =
     (case r of
        None \<Rightarrow> (None, h)
      | Some a \<Rightarrow> (None, h\<lparr>readers := (readers h)(a := (readers h a)\<lparr>r_isClose := True\<rparr>)\<rparr>))"

text \<open>
  The loop of \<^verbatim>\<open>Read\<close>. \<open>p\<close> is the destination as the caller passed it, \<open>n\<close> the
  count filled so far; \<^verbatim>\<open>copy(p[n:], buf[r.offset:])\<close> overwrites the bytes of \<open>p\<close>
  from \<open>n\<close> on and panics when a slice bound is out of range.
\<close>

function Read_loop ::
  "chunk list \<Rightarrow> recyclableReadCloser \<Rightarrow> byte list \<Rightarrow> nat
     \<Rightarrow> panic + recyclableReadCloser \<times> byte list \<times> nat \<times> error option" where
  "Read_loop bufs1 r p n =
     (if r_index r < length bufs1 then
        (if r_isClose r then Inr (r, p, n, Some closedErr)
         else
           (let buf = elems (bufs1 ! r_index r) in
            if n > length p \<or> r_offset r > length buf then Inl SliceBounds
            else
              (let src = drop (r_offset r) buf;
                   dst = drop n p;
                   x = min (length dst) (length src);
                   p1 = take n p @ take x src @ drop x dst;
                   n1 = n + x;
                   r1 = (if r_offset r + x = length buf
                         then r\<lparr>r_offset := 0, r_index := r_index r + 1\<rparr>
                         else r\<lparr>r_offset := r_offset r + x\<rparr>);
                   r2 = r1\<lparr>r_offsetLen := r_offsetLen r1 + x\<rparr>
               in if n1 = length p then Inr (r2, p1, n1, None)
                  else Read_loop bufs1 r2 p1 n1)))
      else Inr (r, p, n, None))"
  by pat_completeness auto
termination
  by (relation "measure (\<lambda>(bufs1, r, p, n). length bufs1 - r_index r)")
     (auto simp: min_def split: if_splits)

definition Read ::
  "heap \<Rightarrow> nat option \<Rightarrow> byte list \<Rightarrow> panic + (byte list \<times> nat \<times> error option) \<times> heap" where
  "Read h r p =
     (case r of
        None \<Rightarrow> Inr ((p, 0, Some EOF), h)
      | Some a \<Rightarrow>
          (let (len1, h1) = Len h r in
           if r_offsetLen (readers h a) \<ge> len1 then Inr ((p, 0, Some EOF), h1)
           else if r_isClose (readers h1 a) then Inr ((p, 0, Some closedErr), h1)
           else
             (case r_bufs (readers h1 a) of
                None \<Rightarrow> Inr ((p, 0, Some EOF), h1)
              | Some d \<Rightarrow>
                  (let bufs1 = rc_data (recyclables h1 d);
                       (sz, h2) = Len h1 r
                   in case Read_loop bufs1 (readers h2 a) p 0 of
                        Inl e \<Rightarrow> Inl e
                      | Inr (r', p', n, err) \<Rightarrow>
                          (let h3 = h2\<lparr>readers := (readers h2)(a := r')\<rparr> in
                           if r_offsetLen r' \<ge> sz then
                             (if length p = 0 then Inr ((p', 0, None), h3)
                              else Inr ((p', n, Some EOF), h3))
                           else Inr ((p', n, err), h3))))))"

text \<open>
  The loop of \<^verbatim>\<open>WriteTo\<close> goes on for as long as the sink takes less than it is
  offered without reporting an error, so it need not end.
\<close>

partial_function (option) WriteTo_loop ::
  "'s writer \<Rightarrow> 's \<Rightarrow> chunk list \<Rightarrow> recyclableReadCloser \<Rightarrow> int
     \<Rightarrow> (panic + recyclableReadCloser \<times> 's \<times> int \<times> error option) option" where
  "WriteTo_loop wr s dat r n =
     (if r_index r < length dat then
        (if r_isClose r then Some (Inr (r, s, n, Some closedErr))
         else
           (let buf = elems (dat ! r_index r) in
            if r_offset r > length buf then Some (Inl SliceBounds)
            else
              (case wr s (drop (r_offset r) buf) of
                 ((x, err), s') \<Rightarrow>
                   (let n1 = n + int x;
                        r1 = (if r_offset r + x = length buf
                              then r\<lparr>r_offset := 0, r_index := r_index r + 1\<rparr>
                              else r\<lparr>r_offset := r_offset r + x\<rparr>);
                        r2 = r1\<lparr>r_offsetLen := r_offsetLen r1 + x\<rparr>
                    in if err \<noteq> None then Some (Inr (r2, s', n1, err))
                       else WriteTo_loop wr s' dat r2 n1))))
      else Some (Inr (r, s, n, None)))"

definition WriteTo ::
  "heap \<Rightarrow> nat option \<Rightarrow> 's writer \<Rightarrow> 's
     \<Rightarrow> (panic + (int \<times> error option) \<times> 's \<times> heap) option" where
  "WriteTo h r wr s =
     (case r of
        None \<Rightarrow> Some (Inr ((0, None), s, h))
      | Some a \<Rightarrow>
          (let (len1, h1) = Len h r in
           if r_offsetLen (readers h a) \<ge> len1 then Some (Inr ((0, None), s, h1))
           else if r_isClose (readers h1 a) then Some (Inr ((0, Some closedErr), s, h1))
           else
             (case r_bufs (readers h1 a) of
                None \<Rightarrow> Some (Inr ((0, None), s, h1))
              | Some d \<Rightarrow>
                  (case WriteTo_loop wr s (rc_data (recyclables h1 d)) (readers h1 a) 0 of
                     None \<Rightarrow> None
                   | Some (Inl e) \<Rightarrow> Some (Inl e)
                   | Some (Inr (r', s', n, err)) \<Rightarrow>
                       Some (Inr ((n, err), s', h1\<lparr>readers := (readers h1)(a := r')\<rparr>))))))"

definition Bytes :: "heap \<Rightarrow> nat option \<Rightarrow> panic + chunk \<times> heap" where
  "Bytes h r =
     (case r of
        None \<Rightarrow> Inr (nil_chunk, h)
      | Some a \<Rightarrow>
          (let bufs1 = r_bufs (readers h a);
               (n, h1) = Len h r
           in if n = 0 then Inr (nil_chunk, h1)
              else
                (case bufs1 of
                   None \<Rightarrow> Inl NilDereference
                 | Some d \<Rightarrow>
                     Inr (foldl (\<lambda>bf buf. go_append h1 bf (elems buf)) (make_chunk n)
                            (rc_data (recyclables h1 d)), h1))))"

definition Reset :: "heap \<Rightarrow> nat option \<Rightarrow> panic + heap" where
  "Reset h r =
     (case r of
        None \<Rightarrow> Inl NilDereference
      | Some a \<Rightarrow>
          Inr (h\<lparr>readers := (readers h)
                 (a := (readers h a)\<lparr>r_offset := 0, r_index := 0, r_offsetLen := 0\<rparr>)\<rparr>))"

definition BuildBytes :: "heap \<Rightarrow> nat option \<Rightarrow> chunk \<Rightarrow> panic + chunk \<times> heap" where
  "BuildBytes h r reuse =
     (let (sz, h1) = Len h r in
      case r of
        None \<Rightarrow> Inl NilDereference
      | Some a \<Rightarrow>
          (let bufs1 = r_bufs (readers h1 a) in
           if sz = 0 then Inr (nil_chunk, h1)
           else
             (case bufs1 of
                None \<Rightarrow> Inl NilDereference
              | Some d \<Rightarrow>
                  Inr (foldl (\<lambda>re buf. go_append h1 re (elems buf)) reuse
                         (rc_data (recyclables h1 d)), h1))))"

section \<open>Vocabulary of the properties\<close>

text \<open>
  Growth can only make progress when a fresh chunk has room: the start size and the
  maximum size are positive.
\<close>

definition positive_sizes :: "PoolConfig \<Rightarrow> bool" where
  "positive_sizes c = (0 < StartSize c \<and> 0 < MaxSize c)"

text \<open>
  What \<^verbatim>\<open>putBuf\<close> keeps true of the reuse pools: a pooled chunk was resliced to length
  0 and lies in the pool of its own capacity.
\<close>

definition pool_ok :: "'a pools_scheme \<Rightarrow> bool" where
  "pool_ok w =
     list_all (\<lambda>(sz, p). list_all (\<lambda>c. elems c = [] \<and> int (spare c) = sz) p) (buffers w)"

text \<open>The active chunk is still the chunk it was acquired as (\<^verbatim>\<open>append\<close> never moved it).\<close>

definition no_realloc :: "Buffer \<Rightarrow> bool" where
  "no_realloc b = (cap_of (toPool b) = cap_of (Buf b))"

definition contents :: "Buffer \<Rightarrow> byte list" where
  "contents b = concat (map elems (bufs b)) @ elems (Buf b)"

text \<open>A sequence of appends to one buffer, each by one of the three append methods.\<close>

datatype append_call =
  Call_AppendByte byte | Call_AppendBytes "byte list" | Call_AppendString "byte list"

fun call_bytes :: "append_call \<Rightarrow> byte list" where
  "call_bytes (Call_AppendByte d) = [d]"
| "call_bytes (Call_AppendBytes d) = d"
| "call_bytes (Call_AppendString d) = d"

fun apply_call ::
  "'a pools_scheme \<Rightarrow> Buffer \<Rightarrow> append_call \<Rightarrow> (panic + 'a pools_scheme \<times> Buffer) option" where
  "apply_call w b (Call_AppendByte d) = Some (AppendByte w b d)"
| "apply_call w b (Call_AppendBytes d) = AppendBytes w b d"
| "apply_call w b (Call_AppendString d) = AppendString w b d"

fun apply_calls ::
  "'a pools_scheme \<Rightarrow> Buffer \<Rightarrow> append_call list \<Rightarrow> (panic + 'a pools_scheme \<times> Buffer) option" where
  "apply_calls w b [] = Some (Inr (w, b))"
| "apply_calls w b (c # cs) =
     (case apply_call w b c of
        Some (Inr (w1, b1)) \<Rightarrow> apply_calls w1 b1 cs
      | other \<Rightarrow> other)"

text \<open>A sequence of \<^verbatim>\<open>Recycle\<close> calls, on the readers at the addresses listed.\<close>

definition Recycle_all :: "heap \<Rightarrow> nat list \<Rightarrow> heap" where
  "Recycle_all h cs = foldl (\<lambda>h' a. Recycle h' (Some a)) h cs"

text \<open>Of the readers listed, those not yet recycled.\<close>

definition unrecycled :: "heap \<Rightarrow> nat list \<Rightarrow> nat set" where
  "unrecycled h cs = {a \<in> set cs. \<not> r_isRecycle (readers h a)}"

text \<open>
  What the object pool of readers keeps true: a reader object is pooled at most once,
  and a pooled reader was allocated before and has been recycled.
\<close>

definition reader_pool_ok :: "heap \<Rightarrow> bool" where
  "reader_pool_ok h =
     (distinct (recyclableReadCloserPool h) \<and>
      list_all (\<lambda>d. r_isRecycle (readers h d) \<and> d < readers_next h)
        (recyclableReadCloserPool h))"

subsection \<open>Concrete states\<close>

definition default_config :: PoolConfig where
  "default_config = \<lparr>StartSize = 128, PooledSize = 512, MaxSize = 32768\<rparr>"

definition default_pools :: pools where
  "default_pools =
     \<lparr>config = default_config,
      buffers = [(512, []), (1024, []), (2048, []), (4096, []), (8192, []),
                 (16384, []), (32768, [])],
      sched = [], growslice = (\<lambda>old need. 0)\<rparr>"

definition small_config :: PoolConfig where
  "small_config = \<lparr>StartSize = 4, PooledSize = 8, MaxSize = 16\<rparr>"

definition small_pools :: pools where
  "small_pools =
     \<lparr>config = small_config, buffers = [(8, []), (16, [])],
      sched = [], growslice = (\<lambda>old need. 0)\<rparr>"

definition small_heap :: heap where
  "small_heap =
     \<lparr>config = small_config, buffers = [(8, []), (16, [])],
      sched = [], growslice = (\<lambda>old need. 0),
      recyclables = (\<lambda>a. zero_recyclable), recyclables_next = 0,
      readers = (\<lambda>a. zero_reader), readers_next = 0,
      recyclableReadCloserPool = [], recyclablePool = []\<rparr>"

text \<open>Thirty bytes, more than the maximum chunk size of \<open>small_config\<close>.\<close>

definition thirty_bytes :: "append_call list" where
  "thirty_bytes =
     [Call_AppendString ''hell'', Call_AppendBytes ''o world! '', Call_AppendByte (CHR ''a''),
      Call_AppendBytes ''bcdefghijklmnopq'']"

text \<open>The buffer a fresh one becomes under \<open>default_pools\<close> by \<^verbatim>\<open>EnsureSpace(200)\<close>.\<close>

definition empty_active :: Buffer where
  "empty_active =
     \<lparr>Buf = \<lparr>elems = [], spare = 128\<rparr>, toPool = \<lparr>elems = [], spare = 128\<rparr>, bufs = []\<rparr>"

text \<open>
  The buffer the thirty bytes leave under \<open>small_pools\<close>, with three spilled chunks (of
  capacities 4, 8 and 16), and a sink that takes \<open>room\<close> more bytes.
\<close>

definition spilled :: Buffer where
  "spilled =
     \<lparr>Buf = \<lparr>elems = ''pq'', spare = 14\<rparr>, toPool = \<lparr>elems = [], spare = 16\<rparr>,
      bufs = [\<lparr>elems = ''hell'', spare = 0\<rparr>, \<lparr>elems = ''o world!'', spare = 0\<rparr>,
              \<lparr>elems = '' abcdefghijklmno'', spare = 0\<rparr>]\<rparr>"

definition limited_sink :: "nat writer" where
  "limited_sink room p =
     (if length p \<le> room then ((length p, None), room - length p)
      else ((room, Some (SinkError 1)), 0))"

text \<open>
  The buffer holding \<open>abcdef\<close> in two chunks, the heap with one reader (at address 0)
  over it, and that heap after the reader has read three bytes, all six bytes, and has
  then been closed.
\<close>

definition abcdef :: Buffer where
  "abcdef =
     \<lparr>Buf = \<lparr>elems = ''ef'', spare = 6\<rparr>, toPool = \<lparr>elems = [], spare = 8\<rparr>,
      bufs = [\<lparr>elems = ''abcd'', spare = 0\<rparr>]\<rparr>"

definition abcdef_set :: recyclable where
  "abcdef_set =
     \<lparr>rc_data = [\<lparr>elems = ''abcd'', spare = 0\<rparr>, \<lparr>elems = ''ef'', spare = 6\<rparr>],
      rc_isRecycle = 1\<rparr>"

definition reader_heap :: heap where
  "reader_heap = fst (snd (RecyclableReader small_heap abcdef))"

definition half_read_heap :: heap where
  "half_read_heap = snd (projr (Read reader_heap (Some 0) ''___''))"

definition all_read_heap :: heap where
  "all_read_heap = snd (projr (Read reader_heap (Some 0) ''______''))"

definition closed_half_read_heap :: heap where
  "closed_half_read_heap = snd (Close half_read_heap (Some 0))"

definition closed_all_read_heap :: heap where
  "closed_all_read_heap = snd (Close all_read_heap (Some 0))"

text \<open>
  The heap with the reader at address 0 and three clones of it, at addresses 1, 2 and 3,
  after the last clone has been recycled.
\<close>

definition clones_heap :: heap where
  "clones_heap =
     Recycle (snd (Clone (snd (Clone (snd (Clone half_read_heap (Some 0))) (Some 0))) (Some 0)))
       (Some 3)"

text \<open>
  A run in which the pool of reader objects hands a recycled object out again. The
  fourth \<^verbatim>\<open>Get\<close> of the run takes the pooled object; the first three find nothing.
  One reader is made over \<open>abcdef\<close> (address 0) and cloned (the clone has address 1);
  the clone is recycled; the reader is cloned again, and the second clone is the object
  at address 1; \<^verbatim>\<open>Recycle\<close> is called once more through the pointer of the first
  clone; at last the reader at address 0 is recycled.
\<close>

definition reissue_start :: heap where
  "reissue_start = small_heap\<lparr>sched := [None, None, None, Some 0]\<rparr>"

definition one_reader :: heap where
  "one_reader = fst (snd (RecyclableReader reissue_start abcdef))"

definition first_clone :: heap where
  "first_clone = snd (Clone one_reader (Some 0))"

definition first_clone_recycled :: heap where
  "first_clone_recycled = Recycle first_clone (Some 1)"

definition second_clone :: heap where
  "second_clone = snd (Clone first_clone_recycled (Some 0))"

definition first_clone_recycled_again :: heap where
  "first_clone_recycled_again = Recycle second_clone (Some 1)"

definition original_recycled :: heap where
  "original_recycled = Recycle first_clone_recycled_again (Some 0)"

section \<open>The chunk pool and the appends\<close>

lemma putBuf_frame [simp]:
  "config (putBuf w c) = config w" "sched (putBuf w c) = sched w" "growslice (putBuf w c) = growslice w"
  "pools.more (putBuf w c) = pools.more w"
  by (simp_all add: putBuf_def Let_def split: option.splits)

lemma pool_ok_lookup:
  "pool_ok w \<Longrightarrow> map_of (buffers w) sz = Some p \<Longrightarrow> c \<in> set p \<Longrightarrow>
   elems c = [] \<and> int (spare c) = sz"
  by (auto simp: pool_ok_def list_all_iff dest!: map_of_SomeD)

lemma set_AList_update: "set (AList.update k v al) \<subseteq> insert (k, v) (set al)"
  by (induction al) auto

lemma pool_ok_update:
  assumes "pool_ok w" "\<forall>c\<in>set p. elems c = [] \<and> int (spare c) = sz"
  shows "pool_ok (w\<lparr>buffers := AList.update sz p (buffers w)\<rparr>)"
  using assms set_AList_update[of sz p "buffers w"]
  by (fastforce simp: pool_ok_def list_all_iff)

lemma pool_ok_putBuf: "pool_ok w \<Longrightarrow> pool_ok (putBuf w c)"
proof -
  assume ok: "pool_ok w"
  show ?thesis
  proof (cases "int (cap_of c) < PooledSize (config w) \<or> map_of (buffers w) (int (cap_of c)) = None")
    case True
    then show ?thesis using ok by (auto simp: putBuf_def Let_def)
  next
    case False
    then obtain p where p: "map_of (buffers w) (int (cap_of c)) = Some p" by auto
    have "\<forall>x\<in>set (pool_Put (reslice0 c) p). elems x = [] \<and> int (spare x) = int (cap_of c)"
      using pool_ok_lookup[OF ok p] by (auto simp: pool_Put_def reslice0_def)
    from pool_ok_update[OF ok this] show ?thesis using False p by (simp add: putBuf_def Let_def)
  qed
qed

lemma pool_Get_set: "pool_Get p ch = (Some v, p') \<Longrightarrow> v \<in> set p \<and> set p' \<subseteq> set p"
  by (cases ch) (auto split: if_splits dest: in_set_takeD in_set_dropD)

lemma pool_Get_None: "pool_Get p ch = (None, p') \<Longrightarrow> p' = p"
  by (cases ch) (auto split: if_splits)

lemma getBuf_ok:
  assumes "pool_ok w" "0 \<le> n"
  shows "\<exists>c w'. getBuf w n = Inr (c, w') \<and> elems c = [] \<and> int (spare c) = n \<and>
           pool_ok w' \<and> config w' = config w \<and> growslice w' = growslice w"
proof (cases "PooledSize (config w) \<le> n \<and> map_of (buffers w) n \<noteq> None")
  case False
  then show ?thesis using assms
    by (auto simp: getBuf_def make_bytes_def make_chunk_def split: option.splits)
next
  case True
  then obtain p where p: "map_of (buffers w) n = Some p" by auto
  obtain ch w1 where nc: "next_choice w = (ch, w1)" by (cases "next_choice w")
  have w1: "buffers w1 = buffers w" "config w1 = config w" "growslice w1 = growslice w"
    using nc by (auto simp: next_choice_def split: list.splits)
  have ok1: "pool_ok w1" using assms(1) w1 by (simp add: pool_ok_def)
  obtain r p' where g: "pool_Get p ch = (r, p')" by (cases "pool_Get p ch")
  show ?thesis
  proof (cases r)
    case None
    then show ?thesis using True p nc g assms ok1 w1
      by (simp add: getBuf_def make_bytes_def make_chunk_def)
  next
    case (Some v)
    from pool_Get_set[OF g[unfolded Some]] have v: "v \<in> set p" "set p' \<subseteq> set p" by auto
    have "\<forall>c\<in>set p'. elems c = [] \<and> int (spare c) = n"
      using pool_ok_lookup[OF assms(1) p] v(2) by blast
    from pool_ok_update[OF ok1 this] have "pool_ok (w1\<lparr>buffers := AList.update n p' (buffers w1)\<rparr>)" .
    moreover have "elems v = [] \<and> int (spare v) = n"
      using pool_ok_lookup[OF assms(1) p v(1)] .
    ultimately show ?thesis using True p nc g Some w1
      by (simp add: getBuf_def)
  qed
qed

lemma ensureSpaceSlow_ok:
  assumes "positive_sizes (config w)" "pool_ok w" "no_realloc b"
  shows "\<exists>w' b'. ensureSpaceSlow w b s = Inr (w', b') \<and> pool_ok w' \<and> config w' = config w \<and>
           growslice w' = growslice w \<and> no_realloc b' \<and> contents b' = contents b \<and>
           1 \<le> spare (Buf b') \<and> elems (Buf b') = []"
proof -
  define l1 where "l1 = (if 0 < len_of (Buf b) then int (cap_of (toPool b)) * 2 else StartSize (config w))"
  define l2 where "l2 = (if l1 > MaxSize (config w) then MaxSize (config w) else l1)"
  define b1 where "b1 = (if 0 < len_of (Buf b) then b\<lparr>bufs := bufs b @ [Buf b]\<rparr> else b)"
  have l1: "1 \<le> l1"
  proof (cases "0 < len_of (Buf b)")
    case True
    then have "1 \<le> cap_of (toPool b)" using assms(3) unfolding no_realloc_def cap_of_def len_of_def by arith
    then show ?thesis using True by (simp add: l1_def)
  next
    case False
    then show ?thesis using assms(1) by (simp add: l1_def positive_sizes_def)
  qed
  then have l2: "1 \<le> l2" using assms(1) by (auto simp: l2_def positive_sizes_def)
  have unf: "ensureSpaceSlow w b s =
      (case getBuf w l2 of Inl e \<Rightarrow> Inl e | Inr (c, w2) \<Rightarrow> Inr (w2, b1\<lparr>Buf := c, toPool := c\<rparr>))"
    using assms(3) unfolding ensureSpaceSlow_def Let_def l1_def l2_def b1_def no_realloc_def
    by (cases "0 < len_of (Buf b)") simp_all
  from getBuf_ok[OF assms(2), of l2] l2 obtain c w' where
    g: "getBuf w l2 = Inr (c, w')" "elems c = []" "int (spare c) = l2" "pool_ok w'"
       "config w' = config w" "growslice w' = growslice w" by auto
  have "contents (b1\<lparr>Buf := c, toPool := c\<rparr>) = contents b"
    using g(2) by (auto simp: contents_def b1_def len_of_def)
  moreover have "1 \<le> spare c" using g(3) l2 by linarith
  ultimately show ?thesis using unf g by (simp add: no_realloc_def)
qed

lemma EnsureSpace_1_ok:
  assumes "positive_sizes (config w)" "pool_ok w" "no_realloc b"
  shows "\<exists>w' b'. EnsureSpace w b 1 = Inr (w', b') \<and> pool_ok w' \<and> config w' = config w \<and>
           growslice w' = growslice w \<and> no_realloc b' \<and> contents b' = contents b \<and>
           1 \<le> spare (Buf b')"
proof (cases "int (cap_of (Buf b)) - int (len_of (Buf b)) < 1")
  case True
  then show ?thesis using ensureSpaceSlow_ok[OF assms, of 1] by (auto simp: EnsureSpace_def)
next
  case False
  then have "1 \<le> spare (Buf b)" by (simp add: cap_of_def len_of_def)
  then show ?thesis using False assms by (simp add: EnsureSpace_def)
qed

lemma go_append_in_place:
  "length xs \<le> spare c \<Longrightarrow> go_append w c xs = \<lparr>elems = elems c @ xs, spare = spare c - length xs\<rparr>"
  by (simp add: go_append_def)

lemma elems_go_append [simp]: "elems (go_append w c xs) = elems c @ xs"
  by (simp add: go_append_def)

lemma cap_go_append_in_place: "length xs \<le> spare c \<Longrightarrow> cap_of (go_append w c xs) = cap_of c"
  by (simp add: go_append_def cap_of_def)

lemma AppendByte_ok:
  assumes "positive_sizes (config w)" "pool_ok w" "no_realloc b"
  shows "\<exists>w' b'. AppendByte w b d = Inr (w', b') \<and> pool_ok w' \<and> config w' = config w \<and>
           no_realloc b' \<and> contents b' = contents b @ [d]"
proof -
  from EnsureSpace_1_ok[OF assms] obtain w1 b1 where
    e: "EnsureSpace w b 1 = Inr (w1, b1)" "pool_ok w1" "config w1 = config w" "no_realloc b1"
       "contents b1 = contents b" "1 \<le> spare (Buf b1)" by auto
  have "cap_of (go_append w1 (Buf b1) [d]) = cap_of (Buf b1)"
    using e(6) by (simp add: cap_go_append_in_place)
  then show ?thesis using e by (auto simp: AppendByte_def no_realloc_def contents_def)
qed

lemma appendBytesSlow_ok:
  assumes "positive_sizes (config w)" "pool_ok w" "no_realloc b"
  shows "\<exists>w' b'. appendBytesSlow w b d = Some (Inr (w', b')) \<and> pool_ok w' \<and> config w' = config w \<and>
           no_realloc b' \<and> contents b' = contents b @ d"
  using assms
proof (induction "length d" arbitrary: w b d rule: less_induct)
  case less
  show ?case
  proof (cases "d = []")
    case True
    then show ?thesis using less.prems by (subst appendBytesSlow.simps) simp
  next
    case False
    from EnsureSpace_1_ok[OF less.prems] obtain w1 b1 where
      e: "EnsureSpace w b 1 = Inr (w1, b1)" "pool_ok w1" "config w1 = config w" "no_realloc b1"
         "contents b1 = contents b" "1 \<le> spare (Buf b1)" by auto
    define sz where "sz = (if spare (Buf b1) > length d then length d else spare (Buf b1))"
    define b2 where "b2 = b1\<lparr>Buf := go_append w1 (Buf b1) (take sz d)\<rparr>"
    have sz: "1 \<le> sz" "sz \<le> spare (Buf b1)" "sz \<le> length d"
      using e(6) False by (auto simp: sz_def Suc_leI)
    have unf: "appendBytesSlow w b d = appendBytesSlow w1 b2 (drop sz d)"
      using False e(1)
      by (subst appendBytesSlow.simps) (simp add: Let_def sz_def b2_def cap_of_def len_of_def)
    have "cap_of (go_append w1 (Buf b1) (take sz d)) = cap_of (Buf b1)"
      using sz by (simp add: cap_go_append_in_place)
    then have nr: "no_realloc b2" using e(4) by (simp add: no_realloc_def b2_def)
    have c2: "contents b2 = contents b @ take sz d"
      using e(5) by (simp add: contents_def b2_def)
    have "length (drop sz d) < length d" using sz False by simp
    from less.hyps[OF this _ e(2) nr] less.prems(1) e(3)
    obtain w' b' where
      r: "appendBytesSlow w1 b2 (drop sz d) = Some (Inr (w', b'))" "pool_ok w'" "config w' = config w1"
         "no_realloc b'" "contents b' = contents b2 @ drop sz d" by auto
    show ?thesis using unf r e(3) c2 by simp
  qed
qed

lemma appendStringSlow_ok:
  assumes "positive_sizes (config w)" "pool_ok w" "no_realloc b"
  shows "\<exists>w' b'. appendStringSlow w b d = Some (Inr (w', b')) \<and> pool_ok w' \<and> config w' = config w \<and>
           no_realloc b' \<and> contents b' = contents b @ d"
  using assms
proof (induction "length d" arbitrary: w b d rule: less_induct)
  case less
  show ?case
  proof (cases "d = []")
    case True
    then show ?thesis using less.prems by (subst appendStringSlow.simps) simp
  next
    case False
    from EnsureSpace_1_ok[OF less.prems] obtain w1 b1 where
      e: "EnsureSpace w b 1 = Inr (w1, b1)" "pool_ok w1" "config w1 = config w" "no_realloc b1"
         "contents b1 = contents b" "1 \<le> spare (Buf b1)" by auto
    define sz where "sz = (if spare (Buf b1) > length d then length d else spare (Buf b1))"
    define b2 where "b2 = b1\<lparr>Buf := go_append w1 (Buf b1) (take sz d)\<rparr>"
    have sz: "1 \<le> sz" "sz \<le> spare (Buf b1)" "sz \<le> length d"
      using e(6) False by (auto simp: sz_def Suc_leI)
    have unf: "appendStringSlow w b d = appendStringSlow w1 b2 (drop sz d)"
      using False e(1)
      by (subst appendStringSlow.simps) (simp add: Let_def sz_def b2_def cap_of_def len_of_def)
    have "cap_of (go_append w1 (Buf b1) (take sz d)) = cap_of (Buf b1)"
      using sz by (simp add: cap_go_append_in_place)
    then have nr: "no_realloc b2" using e(4) by (simp add: no_realloc_def b2_def)
    have c2: "contents b2 = contents b @ take sz d"
      using e(5) by (simp add: contents_def b2_def)
    have "length (drop sz d) < length d" using sz False by simp
    from less.hyps[OF this _ e(2) nr] less.prems(1) e(3)
    obtain w' b' where
      r: "appendStringSlow w1 b2 (drop sz d) = Some (Inr (w', b'))" "pool_ok w'" "config w' = config w1"
         "no_realloc b'" "contents b' = contents b2 @ drop sz d" by auto
    show ?thesis using unf r e(3) c2 by simp
  qed
qed

lemma AppendBytes_ok:
  assumes "positive_sizes (config w)" "pool_ok w" "no_realloc b"
  shows "\<exists>w' b'. AppendBytes w b d = Some (Inr (w', b')) \<and> pool_ok w' \<and> config w' = config w \<and>
           no_realloc b' \<and> contents b' = contents b @ d"
proof (cases "length d \<le> cap_of (Buf b) - len_of (Buf b)")
  case True
  then have "length d \<le> spare (Buf b)" by (simp add: cap_of_def len_of_def)
  then have "cap_of (go_append w (Buf b) d) = cap_of (Buf b)" by (simp add: cap_go_append_in_place)
  then show ?thesis using True assms by (simp add: AppendBytes_def no_realloc_def contents_def)
next
  case False
  then show ?thesis using appendBytesSlow_ok[OF assms, of d] by (simp add: AppendBytes_def)
qed

lemma AppendString_ok:
  assumes "positive_sizes (config w)" "pool_ok w" "no_realloc b"
  shows "\<exists>w' b'. AppendString w b d = Some (Inr (w', b')) \<and> pool_ok w' \<and> config w' = config w \<and>
           no_realloc b' \<and> contents b' = contents b @ d"
proof (cases "length d \<le> cap_of (Buf b) - len_of (Buf b)")
  case True
  then have "length d \<le> spare (Buf b)" by (simp add: cap_of_def len_of_def)
  then have "cap_of (go_append w (Buf b) d) = cap_of (Buf b)" by (simp add: cap_go_append_in_place)
  then show ?thesis using True assms by (simp add: AppendString_def no_realloc_def contents_def)
next
  case False
  then show ?thesis using appendStringSlow_ok[OF assms, of d] by (simp add: AppendString_def)
qed

lemma apply_call_ok:
  assumes "positive_sizes (config w)" "pool_ok w" "no_realloc b"
  shows "\<exists>w' b'. apply_call w b c = Some (Inr (w', b')) \<and> pool_ok w' \<and> config w' = config w \<and>
           no_realloc b' \<and> contents b' = contents b @ call_bytes c"
proof (cases c)
  case (Call_AppendByte d)
  then show ?thesis using AppendByte_ok[OF assms, of d] by auto
next
  case (Call_AppendBytes d)
  then show ?thesis using AppendBytes_ok[OF assms, of d] by auto
next
  case (Call_AppendString d)
  then show ?thesis using AppendString_ok[OF assms, of d] by auto
qed

lemma apply_calls_ok:
  assumes "positive_sizes (config w)" "pool_ok w" "no_realloc b"
  shows "\<exists>w' b'. apply_calls w b cs = Some (Inr (w', b')) \<and> pool_ok w' \<and> config w' = config w \<and>
           no_realloc b' \<and> contents b' = contents b @ concat (map call_bytes cs)"
  using assms
proof (induction cs arbitrary: w b)
  case Nil
  then show ?case by simp
next
  case (Cons c cs)
  from apply_call_ok[OF Cons.prems, of c] obtain w1 b1 where
    s: "apply_call w b c = Some (Inr (w1, b1))" "pool_ok w1" "config w1 = config w"
       "no_realloc b1" "contents b1 = contents b @ call_bytes c" by auto
  from Cons.IH[OF _ s(2) s(4)] Cons.prems(1) s(3) obtain w' b' where
    r: "apply_calls w1 b1 cs = Some (Inr (w', b'))" "pool_ok w'" "config w' = config w1"
       "no_realloc b'" "contents b' = contents b1 @ concat (map call_bytes cs)" by auto
  show ?case using s r by simp
qed

text \<open>
  Why the sizes have to be positive: with a start size of 0 the fresh chunk takes
  nothing, and the slow loop never ends.
\<close>

lemma appendBytesSlow_zero_start:
  assumes "appendBytesSlow w b d = Some y"
  shows "\<not> (StartSize (config w) = 0 \<and> 0 \<le> MaxSize (config w) \<and> pool_ok w \<and> d \<noteq> [] \<and>
            elems (Buf b) = [] \<and> spare (Buf b) = 0)"
proof (rule appendBytesSlow.raw_induct[where P = "\<lambda>w b d y.
         \<not> (StartSize (config w) = 0 \<and> 0 \<le> MaxSize (config w) \<and> pool_ok w \<and> d \<noteq> [] \<and>
            elems (Buf b) = [] \<and> spare (Buf b) = 0)", OF _ assms])
  fix f :: "'a pools_scheme \<Rightarrow> Buffer \<Rightarrow> byte list \<Rightarrow> (panic + 'a pools_scheme \<times> Buffer) option"
    and w b d y
  assume IH: "\<And>w b d y. f w b d = Some y \<Longrightarrow>
         \<not> (StartSize (config w) = 0 \<and> 0 \<le> MaxSize (config w) \<and> pool_ok w \<and> d \<noteq> [] \<and>
            elems (Buf b) = [] \<and> spare (Buf b) = 0)"
    and step: "(if 0 < length d
      then case EnsureSpace w b 1 of Inl e \<Rightarrow> Some (Inl e)
           | Inr (w1, b1) \<Rightarrow>
               let sz0 = cap_of (Buf b1) - len_of (Buf b1);
                   sz = if length d < sz0 then length d else sz0
               in f w1 (b1\<lparr>Buf := go_append w1 (Buf b1) (take sz d)\<rparr>) (drop sz d)
      else Some (Inr (w, b))) = Some y"
  show "\<not> (StartSize (config w) = 0 \<and> 0 \<le> MaxSize (config w) \<and> pool_ok w \<and> d \<noteq> [] \<and>
            elems (Buf b) = [] \<and> spare (Buf b) = 0)"
  proof
    assume inv: "StartSize (config w) = 0 \<and> 0 \<le> MaxSize (config w) \<and> pool_ok w \<and> d \<noteq> [] \<and>
            elems (Buf b) = [] \<and> spare (Buf b) = 0"
    then have ok: "pool_ok w" by simp
    from getBuf_ok[OF ok, of 0] obtain c w' where
      g: "getBuf w 0 = Inr (c, w')" "elems c = []" "int (spare c) = 0" "pool_ok w'"
         "config w' = config w" by auto
    obtain B T S where b: "b = \<lparr>Buf = B, toPool = T, bufs = S\<rparr>" by (cases b)
    have ceq: "c = \<lparr>elems = [], spare = 0\<rparr>" using g(2,3) by (cases c) simp
    have e: "EnsureSpace w b 1 = Inr (w', \<lparr>Buf = c, toPool = c, bufs = S\<rparr>)"
      using inv g(1) by (simp add: b EnsureSpace_def ensureSpaceSlow_def cap_of_def len_of_def Let_def)
    have "f w' \<lparr>Buf = c, toPool = c, bufs = S\<rparr> d = Some y"
      using step inv e by (simp add: Let_def cap_of_def len_of_def go_append_def ceq)
    from IH[OF this] show False using inv g by (simp add: ceq)
  qed
qed

lemma AppendBytes_zero_start_never_returns:
  assumes "StartSize (config w) = 0" "0 \<le> MaxSize (config w)" "pool_ok w" "d \<noteq> []"
  shows "AppendBytes w new_Buffer d = None"
proof (cases "AppendBytes w new_Buffer d")
  case None
  then show ?thesis .
next
  case (Some y)
  then have "appendBytesSlow w new_Buffer d = Some y"
    using assms(4) by (simp add: AppendBytes_def new_Buffer_def nil_chunk_def cap_of_def len_of_def)
  from appendBytesSlow_zero_start[OF this] show ?thesis
    using assms by (simp add: new_Buffer_def nil_chunk_def)
qed

lemma Size_contents: "Size b = int (length (contents b))"
proof -
  have "foldl (\<lambda>sz buf. sz + int (len_of buf)) a cs = a + int (length (concat (map elems cs)))" for a cs
    by (induction cs arbitrary: a) (auto simp: len_of_def)
  then show ?thesis by (simp add: Size_def contents_def len_of_def)
qed

lemma BuildBytes_loop_elems:
  "elems (snd (BuildBytes_loop w ret cs)) = elems ret @ concat (map elems cs)"
  by (induction cs arbitrary: w ret) auto

lemma Buffer_BuildBytes_contents: "elems (fst (Buffer_BuildBytes w b reuse)) = contents b"
proof (cases "bufs b = []")
  case True
  then show ?thesis by (simp add: Buffer_BuildBytes_def contents_def)
next
  case False
  then show ?thesis
    using BuildBytes_loop_elems[of w "if length reuse = 1 \<and> Size b \<le> int (cap_of (reuse ! 0))
                     then reslice0 (reuse ! 0) else make_chunk (nat (Size b))" "bufs b"]
    by (auto simp: Buffer_BuildBytes_def contents_def Let_def split_beta reslice0_def make_chunk_def)
qed

lemma getBuf_Inr:
  assumes "pool_ok w" "getBuf w n = Inr (c, w')"
  shows "0 \<le> n \<and> elems c = [] \<and> int (spare c) = n"
proof (cases "0 \<le> n")
  case True
  then show ?thesis using getBuf_ok[OF assms(1) True] assms(2) by auto
next
  case False
  have "p = []" if "map_of (buffers w) n = Some p" for p
  proof (cases p)
    case Nil
    then show ?thesis .
  next
    case (Cons x xs)
    then have "int (spare x) = n" using pool_ok_lookup[OF assms(1) that, of x] by simp
    then show ?thesis using False by simp
  qed
  then have "getBuf w n = Inl MakeSliceCap"
    using False
    by (cases "next_choice w"; cases "fst (next_choice w)")
       (auto simp: getBuf_def make_bytes_def split: option.splits)
  then show ?thesis using assms(2) by simp
qed

section \<open>The reader: length, reading after the end and after closing\<close>


lemma Len_nil [simp]: "Len h None = (0, h)"
  by (simp add: Len_def)

lemma Len_snd:
  "snd (Len h (Some a)) = h\<lparr>readers := (readers h)(a := (readers h a)\<lparr>r_size := fst (Len h (Some a))\<rparr>)\<rparr>"
proof -
  have triv: "rd\<lparr>r_size := n\<rparr> = rd" if "r_size rd = n" for rd :: recyclableReadCloser and n
    using that by (cases rd) simp
  show ?thesis
    by (auto simp: Len_def Let_def triv split: option.splits)
qed

lemma Len_frame [simp]:
  "config (snd (Len h r)) = config h" "buffers (snd (Len h r)) = buffers h"
  "recyclables (snd (Len h r)) = recyclables h"
  "recyclableReadCloserPool (snd (Len h r)) = recyclableReadCloserPool h"
  "readers_next (snd (Len h r)) = readers_next h"
  "growslice (snd (Len h r)) = growslice h"
  by (simp_all add: Len_def Let_def split: option.splits)

lemma Len_reader_fields [simp]:
  "r_isClose (readers (snd (Len h r)) a) = r_isClose (readers h a)"
  "r_isRecycle (readers (snd (Len h r)) a) = r_isRecycle (readers h a)"
  "r_bufs (readers (snd (Len h r)) a) = r_bufs (readers h a)"
  "r_offset (readers (snd (Len h r)) a) = r_offset (readers h a)"
  "r_index (readers (snd (Len h r)) a) = r_index (readers h a)"
  "r_offsetLen (readers (snd (Len h r)) a) = r_offsetLen (readers h a)"
  by (simp_all add: Len_def Let_def split: option.splits)

lemma Len_live:
  "r_bufs (readers h a) = Some s \<Longrightarrow>
   fst (Len h (Some a)) =
     (if r_size (readers h a) > 0 then r_size (readers h a)
      else length (concat (map elems (rc_data (recyclables h s)))))"
proof -
  have "foldl (\<lambda>n b. n + len_of b) k cs = k + length (concat (map elems cs))" for k cs
    by (induction cs arbitrary: k) (auto simp: len_of_def)
  then show "r_bufs (readers h a) = Some s \<Longrightarrow> ?thesis"
    by (simp add: Len_def Let_def)
qed

lemma Read_at_end:
  "fst (Len h (Some a)) \<le> r_offsetLen (readers h a) \<Longrightarrow>
   Read h (Some a) p = Inr ((p, 0, Some EOF), snd (Len h (Some a)))"
  by (simp add: Read_def split_beta)

lemma WriteTo_at_end:
  "fst (Len h (Some a)) \<le> r_offsetLen (readers h a) \<Longrightarrow>
   WriteTo h (Some a) wr s = Some (Inr ((0, None), s, snd (Len h (Some a))))"
  by (simp add: WriteTo_def split_beta)

lemma Read_closed:
  "r_isClose (readers h a) \<Longrightarrow> r_offsetLen (readers h a) < fst (Len h (Some a)) \<Longrightarrow>
   Read h (Some a) p = Inr ((p, 0, Some closedErr), snd (Len h (Some a)))"
  by (simp add: Read_def split_beta)

lemma WriteTo_closed:
  "r_isClose (readers h a) \<Longrightarrow> r_offsetLen (readers h a) < fst (Len h (Some a)) \<Longrightarrow>
   WriteTo h (Some a) wr s = Some (Inr ((0, Some closedErr), s, snd (Len h (Some a))))"
  by (simp add: WriteTo_def split_beta)

lemma foldl_go_append_elems:
  "elems (foldl (\<lambda>bf buf. go_append w bf (elems buf)) c cs) = elems c @ concat (map elems cs)"
  by (induction cs arbitrary: c) (auto simp: go_append_def)


lemma Bytes_live:
  assumes "r_bufs (readers h a) = Some s"
  shows "\<exists>c. Bytes h (Some a) = Inr (c, snd (Len h (Some a))) \<and>
           elems c = concat (map elems (rc_data (recyclables h s)))"
proof (cases "fst (Len h (Some a)) = 0")
  case True
  then have "concat (map elems (rc_data (recyclables h s))) = []"
    using Len_live[OF assms] by (auto split: if_splits)
  then show ?thesis using True assms by (simp add: Bytes_def split_beta nil_chunk_def)
next
  case False
  then show ?thesis using assms
    by (simp add: Bytes_def split_beta foldl_go_append_elems make_chunk_def)
qed

section \<open>Recycling\<close>


lemma putBuf_heap_frame [simp]:
  "recyclables (putBuf h c) = recyclables h" "readers (putBuf h c) = readers h"
  "recyclables_next (putBuf h c) = recyclables_next h" "readers_next (putBuf h c) = readers_next h"
  "recyclableReadCloserPool (putBuf h c) = recyclableReadCloserPool h"
  "recyclablePool (putBuf h c) = recyclablePool h"
  by (simp_all add: putBuf_def Let_def split: option.splits)

lemma foldl_putBuf_frame [simp]:
  "config (foldl putBuf w cs) = config w"
  "sched (foldl putBuf w cs) = sched w"
  "growslice (foldl putBuf w cs) = growslice w"
  by (induction cs arbitrary: w) simp_all

lemma foldl_putBuf_heap_frame [simp]:
  "recyclables (foldl putBuf h cs) = recyclables h" "readers (foldl putBuf h cs) = readers h"
  "recyclables_next (foldl putBuf h cs) = recyclables_next h"
  "readers_next (foldl putBuf h cs) = readers_next h"
  "recyclableReadCloserPool (foldl putBuf h cs) = recyclableReadCloserPool h"
  "recyclablePool (foldl putBuf h cs) = recyclablePool h"
  by (induction cs arbitrary: h) simp_all

lemma putBuf_buffers_cong:
  "buffers w1 = buffers w2 \<Longrightarrow> config w1 = config w2 \<Longrightarrow>
   buffers (putBuf w1 c) = buffers (putBuf w2 c)"
  by (simp add: putBuf_def Let_def split: option.splits)

lemma foldl_putBuf_buffers_cong:
  "buffers w1 = buffers w2 \<Longrightarrow> config w1 = config w2 \<Longrightarrow>
   buffers (foldl putBuf w1 cs) = buffers (foldl putBuf w2 cs)"
proof (induction cs arbitrary: w1 w2)
  case Nil
  then show ?case by simp
next
  case (Cons c cs)
  show ?case
    using Cons.IH[of "putBuf w1 c" "putBuf w2 c"] putBuf_buffers_cong[OF Cons.prems, of c] Cons.prems
    by simp
qed

lemma Recycle_dead: "r_isRecycle (readers h a) \<Longrightarrow> Recycle h (Some a) = h"
  by (simp add: Recycle_def)

lemma Recycle_live_readers:
  assumes "\<not> r_isRecycle (readers h a)"
  shows "readers (Recycle h (Some a)) =
           (readers h)(a := (readers h a)\<lparr>r_isRecycle := True, r_bufs := None\<rparr>)"
    and "config (Recycle h (Some a)) = config h"
  using assms
  by (auto simp: Recycle_def recyclable_Recycle_def Let_def pool_Put_def split: option.splits)

lemma Recycle_live_not_last:
  assumes "\<not> r_isRecycle (readers h a)" "r_bufs (readers h a) = Some s"
    "rc_isRecycle (recyclables h s) \<noteq> 1"
  shows "buffers (Recycle h (Some a)) = buffers h"
    and "recyclables (Recycle h (Some a)) =
           (recyclables h)(s := (recyclables h s)\<lparr>rc_isRecycle := rc_isRecycle (recyclables h s) - 1\<rparr>)"
  using assms
  by (auto simp: Recycle_def recyclable_Recycle_def Let_def pool_Put_def)

lemma Recycle_live_last:
  assumes "\<not> r_isRecycle (readers h a)" "r_bufs (readers h a) = Some s"
    "rc_isRecycle (recyclables h s) = 1"
  shows "buffers (Recycle h (Some a)) = buffers (foldl putBuf h (rc_data (recyclables h s)))"
    and "recyclables (Recycle h (Some a)) =
           (recyclables h)(s := \<lparr>rc_data = [], rc_isRecycle = 0\<rparr>)"
proof -
  show "buffers (Recycle h (Some a)) = buffers (foldl putBuf h (rc_data (recyclables h s)))"
    using assms
    by (auto simp: Recycle_def recyclable_Recycle_def Let_def pool_Put_def
        intro!: foldl_putBuf_buffers_cong)
  show "recyclables (Recycle h (Some a)) = (recyclables h)(s := \<lparr>rc_data = [], rc_isRecycle = 0\<rparr>)"
    using assms
    by (auto simp: Recycle_def recyclable_Recycle_def Let_def pool_Put_def)
qed

lemma Recycle_idem: "Recycle (Recycle h r) r = Recycle h r"
proof (cases r)
  case None
  then show ?thesis by (simp add: Recycle_def)
next
  case (Some a)
  show ?thesis
  proof (cases "r_isRecycle (readers h a)")
    case True
    then show ?thesis using Some by (simp add: Recycle_dead)
  next
    case False
    then have "r_isRecycle (readers (Recycle h (Some a)) a)"
      by (simp add: Recycle_live_readers)
    then show ?thesis using Some by (simp add: Recycle_dead)
  qed
qed

lemma Recycle_all_dead:
  "\<forall>a\<in>set cs. r_isRecycle (readers h a) \<Longrightarrow> Recycle_all h cs = h"
  unfolding Recycle_all_def
  by (induction cs) (simp_all add: Recycle_dead)

lemma Recycle_all_Cons: "Recycle_all h (a # cs) = Recycle_all (Recycle h (Some a)) cs"
  by (simp add: Recycle_all_def)

lemma Recycle_all_general:
  assumes "\<forall>a\<in>set cs. r_isRecycle (readers h a) \<or> r_bufs (readers h a) = Some s"
  shows "(int (card (unrecycled h cs)) < rc_isRecycle (recyclables h s) \<longrightarrow>
            buffers (Recycle_all h cs) = buffers h \<and>
            recyclables (Recycle_all h cs) = (recyclables h)(s := (recyclables h s)
               \<lparr>rc_isRecycle := rc_isRecycle (recyclables h s) - int (card (unrecycled h cs))\<rparr>)) \<and>
         (int (card (unrecycled h cs)) = rc_isRecycle (recyclables h s) \<and> unrecycled h cs \<noteq> {} \<longrightarrow>
            buffers (Recycle_all h cs) = buffers (foldl putBuf h (rc_data (recyclables h s))) \<and>
            recyclables (Recycle_all h cs) = (recyclables h)(s := \<lparr>rc_data = [], rc_isRecycle = 0\<rparr>))"
  using assms
proof (induction cs arbitrary: h)
  case Nil
  show ?case by (simp add: Recycle_all_def unrecycled_def)
next
  case (Cons a cs)
  show ?case
  proof (cases "r_isRecycle (readers h a)")
    case True
    have "unrecycled h (a # cs) = unrecycled h cs" using True by (auto simp: unrecycled_def)
    moreover have "Recycle_all h (a # cs) = Recycle_all h cs"
      using True by (simp add: Recycle_all_Cons Recycle_dead)
    ultimately show ?thesis using Cons.IH[of h] Cons.prems by simp
  next
    case False
    then have bufs: "r_bufs (readers h a) = Some s" using Cons.prems by simp
    define h1 where "h1 = Recycle h (Some a)"
    define n where "n = rc_isRecycle (recyclables h s)"
    define k where "k = card (unrecycled h (a # cs))"
    define k1 where "k1 = card (unrecycled h1 cs)"
    have rd: "readers h1 = (readers h)(a := (readers h a)\<lparr>r_isRecycle := True, r_bufs := None\<rparr>)"
      and cf: "config h1 = config h"
      using Recycle_live_readers[OF False] by (auto simp: h1_def)
    have prem1: "\<forall>b\<in>set cs. r_isRecycle (readers h1 b) \<or> r_bufs (readers h1 b) = Some s"
      using Cons.prems by (simp add: rd)
    have L1: "unrecycled h1 cs = unrecycled h (a # cs) - {a}"
      using False by (auto simp: rd unrecycled_def)
    have aL: "a \<in> unrecycled h (a # cs)" using False by (simp add: unrecycled_def)
    have fin: "finite (unrecycled h (a # cs))" by (simp add: unrecycled_def)
    have k: "k = Suc k1"
      unfolding k_def k1_def L1 by (rule card.remove[OF fin aL])
    have ne: "unrecycled h (a # cs) \<noteq> {}" using aL by blast
    have RA: "Recycle_all h (a # cs) = Recycle_all h1 cs"
      by (simp add: Recycle_all_Cons h1_def)
    note IH = Cons.IH[OF prem1, folded k1_def]
    show ?thesis
    proof (cases "n = 1")
      case True
      have b1: "buffers h1 = buffers (foldl putBuf h (rc_data (recyclables h s)))"
        and r1: "recyclables h1 = (recyclables h)(s := \<lparr>rc_data = [], rc_isRecycle = 0\<rparr>)"
        using Recycle_live_last[OF False bufs True[unfolded n_def]] by (auto simp: h1_def)
      have part1: "\<not> int k < n" using True k by simp
      have part2: "buffers (Recycle_all h1 cs) = buffers (foldl putBuf h (rc_data (recyclables h s))) \<and>
            recyclables (Recycle_all h1 cs) = (recyclables h)(s := \<lparr>rc_data = [], rc_isRecycle = 0\<rparr>)"
        if "int k = n"
      proof -
        have "k1 = 0" using that True k by simp
        then have "unrecycled h1 cs = {}" by (simp add: k1_def unrecycled_def)
        then have "\<forall>b\<in>set cs. r_isRecycle (readers h1 b)" by (auto simp: unrecycled_def)
        then have "Recycle_all h1 cs = h1" by (rule Recycle_all_dead)
        then show ?thesis using b1 r1 by simp
      qed
      show ?thesis unfolding RA using part1 part2 by (simp add: k_def[symmetric] n_def[symmetric])
    next
      case False2: False
      have b1: "buffers h1 = buffers h"
        and r1: "recyclables h1 = (recyclables h)(s := (recyclables h s)\<lparr>rc_isRecycle := n - 1\<rparr>)"
        using Recycle_live_not_last[OF False bufs False2[unfolded n_def]] by (auto simp: h1_def n_def)
      have n1: "rc_isRecycle (recyclables h1 s) = n - 1" by (simp add: r1)
      have d1: "rc_data (recyclables h1 s) = rc_data (recyclables h s)" by (simp add: r1)
      have fb: "buffers (foldl putBuf h1 (rc_data (recyclables h s))) =
                buffers (foldl putBuf h (rc_data (recyclables h s)))"
        using foldl_putBuf_buffers_cong[OF b1 cf] .
      have part1: "buffers (Recycle_all h1 cs) = buffers h \<and>
            recyclables (Recycle_all h1 cs) = (recyclables h)(s := (recyclables h s)\<lparr>rc_isRecycle := n - int k\<rparr>)"
        if "int k < n"
      proof -
        have "int k1 < rc_isRecycle (recyclables h1 s)" using that k n1 by simp
        with IH have "buffers (Recycle_all h1 cs) = buffers h1"
          "recyclables (Recycle_all h1 cs) = (recyclables h1)(s := (recyclables h1 s)
               \<lparr>rc_isRecycle := rc_isRecycle (recyclables h1 s) - int k1\<rparr>)" by auto
        moreover have "n - 1 - int k1 = n - int k" using k by simp
        ultimately show ?thesis using b1 by (simp add: r1)
      qed
      have part2: "buffers (Recycle_all h1 cs) = buffers (foldl putBuf h (rc_data (recyclables h s))) \<and>
            recyclables (Recycle_all h1 cs) = (recyclables h)(s := \<lparr>rc_data = [], rc_isRecycle = 0\<rparr>)"
        if "int k = n"
      proof -
        have e: "int k1 = rc_isRecycle (recyclables h1 s)" using that k n1 by simp
        have "k1 \<noteq> 0" using that k False2 by auto
        then have "unrecycled h1 cs \<noteq> {}" by (auto simp: k1_def)
        with IH e have "buffers (Recycle_all h1 cs) = buffers (foldl putBuf h1 (rc_data (recyclables h1 s)))"
          "recyclables (Recycle_all h1 cs) = (recyclables h1)(s := \<lparr>rc_data = [], rc_isRecycle = 0\<rparr>)" by auto
        then show ?thesis using fb d1 by (simp add: r1)
      qed
      show ?thesis unfolding RA using part1 part2 ne by (simp add: k_def[symmetric] n_def[symmetric])
    qed
  qed
qed

section \<open>Cloning\<close>

lemma recyclableReadCloserPool_Get_cases:
  assumes "recyclableReadCloserPool_Get h = (d, h')"
  shows "d \<in> set (recyclableReadCloserPool h) \<or> d = readers_next h"
    and "recyclables h' = recyclables h"
    and "x \<noteq> d \<Longrightarrow> readers h' x = readers h x"
proof -
  obtain ch h1 where nc: "next_choice h = (ch, h1)" by (cases "next_choice h")
  have h1: "recyclableReadCloserPool h1 = recyclableReadCloserPool h" "recyclables h1 = recyclables h"
    "readers h1 = readers h" "readers_next h1 = readers_next h"
    using nc by (auto simp: next_choice_def split: list.splits)
  obtain r p' where g: "pool_Get (recyclableReadCloserPool h1) ch = (r, p')"
    by (cases "pool_Get (recyclableReadCloserPool h1) ch")
  show "d \<in> set (recyclableReadCloserPool h) \<or> d = readers_next h"
    using assms nc g h1 pool_Get_set[of "recyclableReadCloserPool h1" ch _ p']
    by (cases r) (auto simp: recyclableReadCloserPool_Get_def)
  show "recyclables h' = recyclables h"
    using assms nc g h1 by (cases r) (auto simp: recyclableReadCloserPool_Get_def)
  show "x \<noteq> d \<Longrightarrow> readers h' x = readers h x"
    using assms nc g h1 by (cases r) (auto simp: recyclableReadCloserPool_Get_def)
qed

text \<open>The pool of reader objects stays as \<open>reader_pool_ok\<close> says.\<close>

lemma pool_Get_distinct:
  assumes "pool_Get p ch = (Some v, p')" "distinct p"
  shows "v \<notin> set p' \<and> distinct p'"
proof (cases ch)
  case None
  then show ?thesis using assms by simp
next
  case (Some i)
  then have i: "i < length p" "v = p ! i" "p' = take i p @ drop (Suc i) p"
    using assms(1) by (auto split: if_splits)
  have "distinct (take i p @ p ! i # drop (Suc i) p)"
    using assms(2) id_take_nth_drop[OF i(1)] by simp
  then show ?thesis using i by auto
qed

lemma recyclableReadCloserPool_Get_ok:
  assumes "recyclableReadCloserPool_Get h = (d, h')" "reader_pool_ok h"
  shows "d \<notin> set (recyclableReadCloserPool h') \<and> distinct (recyclableReadCloserPool h') \<and>
      set (recyclableReadCloserPool h') \<subseteq> set (recyclableReadCloserPool h) \<and>
      readers_next h \<le> readers_next h' \<and> d < readers_next h'"
proof -
  obtain ch h1 where nc: "next_choice h = (ch, h1)" by (cases "next_choice h")
  have h1: "recyclableReadCloserPool h1 = recyclableReadCloserPool h"
    "readers h1 = readers h" "readers_next h1 = readers_next h"
    using nc by (auto simp: next_choice_def split: list.splits)
  obtain r p' where g: "pool_Get (recyclableReadCloserPool h1) ch = (r, p')"
    by (cases "pool_Get (recyclableReadCloserPool h1) ch")
  have dist: "distinct (recyclableReadCloserPool h)"
    and lt: "\<forall>x\<in>set (recyclableReadCloserPool h). x < readers_next h"
    using assms(2) by (auto simp: reader_pool_ok_def list_all_iff)
  show ?thesis
  proof (cases r)
    case None
    then have "p' = recyclableReadCloserPool h" using pool_Get_None g h1 by metis
    then show ?thesis
      using assms(1) nc g None h1 dist lt by (auto simp: recyclableReadCloserPool_Get_def)
  next
    case (Some v)
    from pool_Get_distinct[OF g[unfolded Some]] pool_Get_set[OF g[unfolded Some]] dist h1
    have "v \<notin> set p'" "distinct p'" "set p' \<subseteq> set (recyclableReadCloserPool h)"
      "v \<in> set (recyclableReadCloserPool h)" by auto
    then show ?thesis
      using assms(1) nc g Some h1 lt by (auto simp: recyclableReadCloserPool_Get_def)
  qed
qed

lemma reader_pool_ok_Clone:
  assumes "reader_pool_ok h"
  shows "reader_pool_ok (snd (Clone h r))"
proof (cases r)
  case None
  then show ?thesis using assms by (simp add: Clone_def)
next
  case (Some a)
  define h1 where "h1 = (case r_bufs (readers h a) of
      Some s \<Rightarrow> h\<lparr>recyclables := (recyclables h)
          (s := (recyclables h s)\<lparr>rc_isRecycle := rc_isRecycle (recyclables h s) + 1\<rparr>)\<rparr>
    | None \<Rightarrow> h)"
  have ok1: "reader_pool_ok h1" using assms by (simp add: h1_def reader_pool_ok_def split: option.splits)
  have f1: "recyclableReadCloserPool h1 = recyclableReadCloserPool h" "readers h1 = readers h"
    "readers_next h1 = readers_next h"
    by (simp_all add: h1_def split: option.splits)
  obtain d h2 where g: "recyclableReadCloserPool_Get h1 = (d, h2)"
    by (cases "recyclableReadCloserPool_Get h1")
  from recyclableReadCloserPool_Get_ok[OF g ok1]
  have p: "d \<notin> set (recyclableReadCloserPool h2)" "distinct (recyclableReadCloserPool h2)"
    "set (recyclableReadCloserPool h2) \<subseteq> set (recyclableReadCloserPool h1)"
    "readers_next h1 \<le> readers_next h2" "d < readers_next h2" by auto
  note q = recyclableReadCloserPool_Get_cases[OF g]
  have cl: "snd (Clone h r) = h2\<lparr>readers := (readers h2)(d := zero_reader\<lparr>r_bufs := r_bufs (readers h a)\<rparr>)\<rparr>"
    using Some g by (simp add: Clone_def h1_def Let_def)
  have "\<forall>x\<in>set (recyclableReadCloserPool h2). r_isRecycle (readers h2 x) \<and> x < readers_next h2"
  proof
    fix x assume x: "x \<in> set (recyclableReadCloserPool h2)"
    then have xd: "x \<noteq> d" using p(1) by auto
    have "x \<in> set (recyclableReadCloserPool h)" using x p(3) f1 by auto
    then have "r_isRecycle (readers h x) \<and> x < readers_next h"
      using assms by (auto simp: reader_pool_ok_def list_all_iff)
    then show "r_isRecycle (readers h2 x) \<and> x < readers_next h2"
      using q(3)[OF xd] p(4) f1 by auto
  qed
  then show ?thesis using p(1,2) by (auto simp: cl reader_pool_ok_def list_all_iff)
qed

lemma recyclable_Recycle_frame [simp]:
  "readers (recyclable_Recycle h p) = readers h"
  "readers_next (recyclable_Recycle h p) = readers_next h"
  "recyclableReadCloserPool (recyclable_Recycle h p) = recyclableReadCloserPool h"
  by (simp_all add: recyclable_Recycle_def Let_def pool_Put_def split: option.splits)

lemma reader_pool_ok_Recycle:
  assumes "reader_pool_ok h" "a < readers_next h"
  shows "reader_pool_ok (Recycle h (Some a))"
proof (cases "r_isRecycle (readers h a)")
  case True
  then show ?thesis using assms by (simp add: Recycle_def)
next
  case False
  then have "a \<notin> set (recyclableReadCloserPool h)"
    using assms(1) by (auto simp: reader_pool_ok_def list_all_iff)
  then show ?thesis using assms False
    by (auto simp: Recycle_def Let_def pool_Put_def reader_pool_ok_def list_all_iff)
qed

lemma newRecyclable_frame [simp]:
  "readers (snd (newRecyclable h dat)) = readers h"
  "readers_next (snd (newRecyclable h dat)) = readers_next h"
  "recyclableReadCloserPool (snd (newRecyclable h dat)) = recyclableReadCloserPool h"
  by (auto simp: newRecyclable_def recyclablePool_Get_def next_choice_def Let_def
      split: prod.splits option.splits list.splits)

lemma reader_pool_ok_RecyclableReader:
  assumes "reader_pool_ok h"
  shows "reader_pool_ok (fst (snd (RecyclableReader h b)))"
proof -
  obtain d h1 where g: "recyclableReadCloserPool_Get h = (d, h1)"
    by (cases "recyclableReadCloserPool_Get h")
  from recyclableReadCloserPool_Get_ok[OF g assms]
  have p: "d \<notin> set (recyclableReadCloserPool h1)" "distinct (recyclableReadCloserPool h1)"
    "set (recyclableReadCloserPool h1) \<subseteq> set (recyclableReadCloserPool h)"
    "readers_next h \<le> readers_next h1" "d < readers_next h1" by auto
  note q = recyclableReadCloserPool_Get_cases[OF g]
  define h2 where "h2 = snd (newRecyclable h1 (bufs b @ [Buf b]))"
  define s where "s = fst (newRecyclable h1 (bufs b @ [Buf b]))"
  have rr: "fst (snd (RecyclableReader h b)) =
      h2\<lparr>readers := (readers h2)(d := zero_reader\<lparr>r_bufs := Some s\<rparr>)\<rparr>"
    using g by (simp add: RecyclableReader_def newRecyclableReadCloser_def split_beta h2_def s_def)
  have "\<forall>x\<in>set (recyclableReadCloserPool h1). r_isRecycle (readers h1 x) \<and> x < readers_next h1"
  proof
    fix x assume x: "x \<in> set (recyclableReadCloserPool h1)"
    then have xd: "x \<noteq> d" using p(1) by auto
    have "x \<in> set (recyclableReadCloserPool h)" using x p(3) by auto
    then have "r_isRecycle (readers h x) \<and> x < readers_next h"
      using assms by (auto simp: reader_pool_ok_def list_all_iff)
    then show "r_isRecycle (readers h1 x) \<and> x < readers_next h1"
      using q(3)[OF xd] p(4) by auto
  qed
  then show ?thesis using p(1,2) by (auto simp: rr h2_def reader_pool_ok_def list_all_iff)
qed

section \<open>Evaluation of the concrete states\<close>

lemmas chunk_ev = make_bytes_def make_chunk_def go_append_def cap_of_def len_of_def nil_chunk_def
  reslice0_def pool_Put_def next_choice_def Let_def

lemmas buffer_ev = EnsureSpace_def ensureSpaceSlow_def getBuf_def putBuf_def new_Buffer_def

lemmas reader_ev = RecyclableReader_def newRecyclableReadCloser_def newRecyclable_def
  recyclablePool_Get_def recyclableReadCloserPool_Get_def zero_reader_def zero_recyclable_def
  Len_def Read_def Close_def Clone_def Recycle_def recyclable_Recycle_def

lemmas example_ev = small_heap_def small_config_def abcdef_def abcdef_set_def

lemma reader_heap_eq:
  "reader_heap = small_heap
     \<lparr>recyclables := (\<lambda>a. zero_recyclable)(0 := abcdef_set), recyclables_next := 1,
      readers := (\<lambda>a. zero_reader)(0 := zero_reader\<lparr>r_bufs := Some 0\<rparr>), readers_next := 1\<rparr>"
  by (simp add: reader_heap_def example_ev chunk_ev reader_ev)

lemma Read_half:
  "Read reader_heap (Some 0) ''___'' = Inr ((''abc'', 3, None), small_heap
     \<lparr>recyclables := (\<lambda>a. zero_recyclable)(0 := abcdef_set), recyclables_next := 1,
      readers := (\<lambda>a. zero_reader)
        (0 := zero_reader\<lparr>r_bufs := Some 0, r_offset := 3, r_offsetLen := 3, r_size := 6\<rparr>),
      readers_next := 1\<rparr>)"
  by (simp add: reader_heap_eq example_ev chunk_ev reader_ev fun_eq_iff)

lemma Read_all:
  "Read reader_heap (Some 0) ''______'' = Inr ((''abcdef'', 6, Some EOF), small_heap
     \<lparr>recyclables := (\<lambda>a. zero_recyclable)(0 := abcdef_set), recyclables_next := 1,
      readers := (\<lambda>a. zero_reader)
        (0 := zero_reader\<lparr>r_bufs := Some 0, r_index := 2, r_offsetLen := 6, r_size := 6\<rparr>),
      readers_next := 1\<rparr>)"
  by (simp add: reader_heap_eq example_ev chunk_ev reader_ev fun_eq_iff)

lemma half_read_heap_eq:
  "half_read_heap = small_heap
     \<lparr>recyclables := (\<lambda>a. zero_recyclable)(0 := abcdef_set), recyclables_next := 1,
      readers := (\<lambda>a. zero_reader)
        (0 := zero_reader\<lparr>r_bufs := Some 0, r_offset := 3, r_offsetLen := 3, r_size := 6\<rparr>),
      readers_next := 1\<rparr>"
  by (simp add: half_read_heap_def Read_half)

lemma all_read_heap_eq:
  "all_read_heap = small_heap
     \<lparr>recyclables := (\<lambda>a. zero_recyclable)(0 := abcdef_set), recyclables_next := 1,
      readers := (\<lambda>a. zero_reader)
        (0 := zero_reader\<lparr>r_bufs := Some 0, r_index := 2, r_offsetLen := 6, r_size := 6\<rparr>),
      readers_next := 1\<rparr>"
  by (simp add: all_read_heap_def Read_all)

lemma clones_heap_eq:
  "clones_heap = small_heap
     \<lparr>recyclables := (\<lambda>a. zero_recyclable)(0 := abcdef_set\<lparr>rc_isRecycle := 3\<rparr>),
      recyclables_next := 1,
      readers := (\<lambda>a. zero_reader)
        (0 := zero_reader\<lparr>r_bufs := Some 0, r_offset := 3, r_offsetLen := 3, r_size := 6\<rparr>,
         1 := zero_reader\<lparr>r_bufs := Some 0\<rparr>,
         2 := zero_reader\<lparr>r_bufs := Some 0\<rparr>,
         3 := zero_reader\<lparr>r_isRecycle := True\<rparr>),
      readers_next := 4,
      recyclableReadCloserPool := [3]\<rparr>"
  by (simp add: clones_heap_def half_read_heap_eq example_ev chunk_ev reader_ev fun_eq_iff)

lemma closed_all_read_heap_eq:
  "closed_all_read_heap = small_heap
     \<lparr>recyclables := (\<lambda>a. zero_recyclable)(0 := abcdef_set), recyclables_next := 1,
      readers := (\<lambda>a. zero_reader)
        (0 := zero_reader\<lparr>r_bufs := Some 0, r_index := 2, r_offsetLen := 6, r_size := 6,
               r_isClose := True\<rparr>),
      readers_next := 1\<rparr>"
  by (simp add: closed_all_read_heap_def all_read_heap_eq Close_def zero_reader_def fun_eq_iff)

lemma closed_half_read_heap_eq:
  "closed_half_read_heap = small_heap
     \<lparr>recyclables := (\<lambda>a. zero_recyclable)(0 := abcdef_set), recyclables_next := 1,
      readers := (\<lambda>a. zero_reader)
        (0 := zero_reader\<lparr>r_bufs := Some 0, r_offset := 3, r_offsetLen := 3, r_size := 6,
               r_isClose := True\<rparr>),
      readers_next := 1\<rparr>"
  by (simp add: closed_half_read_heap_def half_read_heap_eq Close_def zero_reader_def fun_eq_iff)

text \<open>The concrete buffer and the empty heap are what the code starts from.\<close>

lemma abcdef_built:
  "AppendString small_heap new_Buffer ''abcdef'' = Some (Inr (small_heap, abcdef))"
  by (simp add: AppendString_def appendStringSlow.simps example_ev chunk_ev buffer_ev)

lemma reader_pool_ok_small_heap: "reader_pool_ok small_heap"
  by (simp add: reader_pool_ok_def small_heap_def)

text \<open>The states of the run with the re-issued reader object.\<close>

lemma one_reader_eq:
  "one_reader = small_heap
     \<lparr>sched := [None, Some 0],
      recyclables := (\<lambda>a. zero_recyclable)(0 := abcdef_set), recyclables_next := 1,
      readers := (\<lambda>a. zero_reader)(0 := zero_reader\<lparr>r_bufs := Some 0\<rparr>), readers_next := 1\<rparr>"
  by (simp add: one_reader_def reissue_start_def example_ev chunk_ev reader_ev fun_eq_iff)

lemma first_clone_eq:
  "Clone one_reader (Some 0) = (Some 1, small_heap
     \<lparr>sched := [Some 0],
      recyclables := (\<lambda>a. zero_recyclable)(0 := abcdef_set\<lparr>rc_isRecycle := 2\<rparr>),
      recyclables_next := 1,
      readers := (\<lambda>a. zero_reader)
        (0 := zero_reader\<lparr>r_bufs := Some 0\<rparr>, 1 := zero_reader\<lparr>r_bufs := Some 0\<rparr>),
      readers_next := 2\<rparr>)"
  by (simp add: one_reader_eq example_ev chunk_ev reader_ev fun_eq_iff)

lemma first_clone_heap_eq:
  "first_clone = small_heap
     \<lparr>sched := [Some 0],
      recyclables := (\<lambda>a. zero_recyclable)(0 := abcdef_set\<lparr>rc_isRecycle := 2\<rparr>),
      recyclables_next := 1,
      readers := (\<lambda>a. zero_reader)
        (0 := zero_reader\<lparr>r_bufs := Some 0\<rparr>, 1 := zero_reader\<lparr>r_bufs := Some 0\<rparr>),
      readers_next := 2\<rparr>"
  by (simp add: first_clone_def first_clone_eq)

lemma first_clone_recycled_eq:
  "first_clone_recycled = small_heap
     \<lparr>sched := [Some 0],
      recyclables := (\<lambda>a. zero_recyclable)(0 := abcdef_set),
      recyclables_next := 1,
      readers := (\<lambda>a. zero_reader)
        (0 := zero_reader\<lparr>r_bufs := Some 0\<rparr>, 1 := zero_reader\<lparr>r_isRecycle := True\<rparr>),
      readers_next := 2, recyclableReadCloserPool := [1]\<rparr>"
  by (simp add: first_clone_recycled_def first_clone_heap_eq example_ev chunk_ev reader_ev fun_eq_iff)

lemma second_clone_eq:
  "Clone first_clone_recycled (Some 0) = (Some 1, small_heap
     \<lparr>sched := [],
      recyclables := (\<lambda>a. zero_recyclable)(0 := abcdef_set\<lparr>rc_isRecycle := 2\<rparr>),
      recyclables_next := 1,
      readers := (\<lambda>a. zero_reader)
        (0 := zero_reader\<lparr>r_bufs := Some 0\<rparr>, 1 := zero_reader\<lparr>r_bufs := Some 0\<rparr>),
      readers_next := 2, recyclableReadCloserPool := []\<rparr>)"
  by (simp add: first_clone_recycled_eq example_ev chunk_ev reader_ev fun_eq_iff)

lemma second_clone_heap_eq:
  "second_clone = small_heap
     \<lparr>sched := [],
      recyclables := (\<lambda>a. zero_recyclable)(0 := abcdef_set\<lparr>rc_isRecycle := 2\<rparr>),
      recyclables_next := 1,
      readers := (\<lambda>a. zero_reader)
        (0 := zero_reader\<lparr>r_bufs := Some 0\<rparr>, 1 := zero_reader\<lparr>r_bufs := Some 0\<rparr>),
      readers_next := 2, recyclableReadCloserPool := []\<rparr>"
  by (simp add: second_clone_def second_clone_eq)

lemma first_clone_recycled_again_eq:
  "first_clone_recycled_again = small_heap
     \<lparr>sched := [],
      recyclables := (\<lambda>a. zero_recyclable)(0 := abcdef_set),
      recyclables_next := 1,
      readers := (\<lambda>a. zero_reader)
        (0 := zero_reader\<lparr>r_bufs := Some 0\<rparr>, 1 := zero_reader\<lparr>r_isRecycle := True\<rparr>),
      readers_next := 2, recyclableReadCloserPool := [1]\<rparr>"
  by (simp add: first_clone_recycled_again_def second_clone_heap_eq example_ev chunk_ev reader_ev fun_eq_iff)

section \<open>The claims\<close>

subsection \<open>C1: recycling and the reference count\<close>

text \<open>
  Claim C1 says that only the first \<^verbatim>\<open>Recycle\<close> of a cursor takes one off the
  reference count, and that recycling all but one of the clones releases no chunk.
  The flag that makes \<^verbatim>\<open>Recycle\<close> idempotent lives in the reader object, which
  \<^verbatim>\<open>Recycle\<close> puts into the pool of reader objects and which \<^verbatim>\<open>Clone\<close> may
  get from there and overwrite, flag and all. In the run below three cursors are handed
  out: the reader, a first clone and a second clone. The first clone is recycled
  (count from 2 to 1); the second clone is the first clone's object, handed out again
  (count 2, flag cleared); a second \<^verbatim>\<open>Recycle\<close> through the first clone's pointer
  takes the count from 2 to 1 once more; recycling the reader then takes the count to 0
  and releases the chunks (the chunk of capacity 8 is pooled), although nobody has
  recycled the second clone.
\<close>

theorem Recycle_after_reissue_decrements_again:
  "fst (Clone one_reader (Some 0)) = Some 1 \<and>
   rc_isRecycle (recyclables first_clone 0) = 2 \<and>
   rc_isRecycle (recyclables first_clone_recycled 0) = 1 \<and>
   r_isRecycle (readers first_clone_recycled 1) \<and>
   fst (Clone first_clone_recycled (Some 0)) = Some 1 \<and>
   rc_isRecycle (recyclables second_clone 0) = 2 \<and>
   \<not> r_isRecycle (readers second_clone 1) \<and>
   rc_isRecycle (recyclables first_clone_recycled_again 0) = 1 \<and>
   buffers first_clone_recycled_again = [(8, []), (16, [])] \<and>
   rc_isRecycle (recyclables original_recycled 0) = 0 \<and>
   rc_data (recyclables original_recycled 0) = [] \<and>
   buffers original_recycled = [(8, [\<lparr>elems = [], spare = 8\<rparr>]), (16, [])]"
proof -
  have a: "fst (Clone one_reader (Some 0)) = Some 1"
    "fst (Clone first_clone_recycled (Some 0)) = Some 1"
    by (simp_all add: first_clone_eq second_clone_eq)
  have b: "rc_isRecycle (recyclables first_clone 0) = 2"
    "rc_isRecycle (recyclables first_clone_recycled 0) = 1"
    "r_isRecycle (readers first_clone_recycled 1)"
    "rc_isRecycle (recyclables second_clone 0) = 2"
    "\<not> r_isRecycle (readers second_clone 1)"
    "rc_isRecycle (recyclables first_clone_recycled_again 0) = 1"
    "buffers first_clone_recycled_again = [(8, []), (16, [])]"
    by (simp_all add: first_clone_heap_eq first_clone_recycled_eq second_clone_heap_eq
          first_clone_recycled_again_eq example_ev zero_reader_def)
  have c: "rc_isRecycle (recyclables original_recycled 0) = 0"
    "rc_data (recyclables original_recycled 0) = []"
    "buffers original_recycled = [(8, [\<lparr>elems = [], spare = 8\<rparr>]), (16, [])]"
    by (simp_all add: original_recycled_def first_clone_recycled_again_eq example_ev chunk_ev
          zero_reader_def zero_recyclable_def Recycle_def recyclable_Recycle_def putBuf_def)
  show ?thesis using a b c by simp
qed

text \<open>
  What holds while no reader object is handed out again between the calls:
  \<^verbatim>\<open>Recycle\<close> is idempotent, and a reader already recycled is left alone. Let \<open>cs\<close>
  list readers that all hold the shared chunk set \<open>s\<close> and are not recycled; \<open>cs\<close> may
  name a reader more than once. While the readers of \<open>cs\<close> are fewer than the set's
  reference count, recycling them all leaves the chunk pool as it was and the set's
  chunks in place, and takes one off the count for each reader, not for each call.
  When they are as many as the count, recycling them all leaves the chunk pool exactly
  as one \<^verbatim>\<open>putBuf\<close> of each chunk of the set, in order, leaves it, and the set holds
  no chunk any more.
\<close>

lemma Recycle_all_without_reissue:
  assumes "\<forall>a\<in>set cs. \<not> r_isRecycle (readers h a) \<and> r_bufs (readers h a) = Some s"
  shows "Recycle (Recycle h r) r = Recycle h r \<and>
         (r_isRecycle (readers h c) \<longrightarrow> Recycle h (Some c) = h) \<and>
         (int (card (set cs)) < rc_isRecycle (recyclables h s) \<longrightarrow>
            buffers (Recycle_all h cs) = buffers h \<and>
            rc_data (recyclables (Recycle_all h cs) s) = rc_data (recyclables h s) \<and>
            rc_isRecycle (recyclables (Recycle_all h cs) s) =
              rc_isRecycle (recyclables h s) - int (card (set cs))) \<and>
         (int (card (set cs)) = rc_isRecycle (recyclables h s) \<and> cs \<noteq> [] \<longrightarrow>
            buffers (Recycle_all h cs) = buffers (foldl putBuf h (rc_data (recyclables h s))) \<and>
            rc_data (recyclables (Recycle_all h cs) s) = [] \<and>
            rc_isRecycle (recyclables (Recycle_all h cs) s) = 0)"
proof -
  have u: "unrecycled h cs = set cs" using assms by (auto simp: unrecycled_def)
  have ne: "unrecycled h cs \<noteq> {}" if "cs \<noteq> []" using that u by simp
  have g: "\<forall>a\<in>set cs. r_isRecycle (readers h a) \<or> r_bufs (readers h a) = Some s"
    using assms by simp
  show ?thesis
    using Recycle_all_general[OF g] ne
    by (simp add: u Recycle_idem Recycle_dead)
qed

text \<open>
  The lemma at the heap with three readers of one set (one of which has read three
  bytes) and a fourth reader already recycled: recycling two of the three, one of them
  twice, releases nothing; recycling all three, one of them twice, pools the one chunk
  of pooled size once.
\<close>

lemma Recycle_all_without_reissue_example:
  "(\<not> r_isRecycle (readers clones_heap 0) \<and> r_bufs (readers clones_heap 0) = Some 0) \<and>
   (\<not> r_isRecycle (readers clones_heap 1) \<and> r_bufs (readers clones_heap 1) = Some 0) \<and>
   (\<not> r_isRecycle (readers clones_heap 2) \<and> r_bufs (readers clones_heap 2) = Some 0) \<and>
   r_isRecycle (readers clones_heap 3) \<and>
   rc_isRecycle (recyclables clones_heap 0) = 3 \<and>
   Recycle (Recycle clones_heap (Some 1)) (Some 1) = Recycle clones_heap (Some 1) \<and>
   Recycle clones_heap (Some 3) = clones_heap \<and>
   buffers (Recycle_all clones_heap [1, 0, 1]) = buffers clones_heap \<and>
   rc_isRecycle (recyclables (Recycle_all clones_heap [1, 0, 1]) 0) = 1 \<and>
   buffers (Recycle_all clones_heap [2, 0, 1, 2]) =
     buffers (foldl putBuf clones_heap (rc_data (recyclables clones_heap 0))) \<and>
   buffers clones_heap = [(8, []), (16, [])] \<and>
   buffers (foldl putBuf clones_heap (rc_data (recyclables clones_heap 0))) =
     [(8, [\<lparr>elems = [], spare = 8\<rparr>]), (16, [])] \<and>
   rc_data (recyclables (Recycle_all clones_heap [2, 0, 1, 2]) 0) = []"
proof -
  have f: "\<not> r_isRecycle (readers clones_heap 0)" "r_bufs (readers clones_heap 0) = Some 0"
    "\<not> r_isRecycle (readers clones_heap 1)" "r_bufs (readers clones_heap 1) = Some 0"
    "\<not> r_isRecycle (readers clones_heap 2)" "r_bufs (readers clones_heap 2) = Some 0"
    "r_isRecycle (readers clones_heap 3)" "rc_isRecycle (recyclables clones_heap 0) = 3"
    by (simp_all add: clones_heap_eq zero_reader_def abcdef_set_def)
  have p: "buffers clones_heap = [(8, []), (16, [])]"
    "buffers (foldl putBuf clones_heap (rc_data (recyclables clones_heap 0))) =
     [(8, [\<lparr>elems = [], spare = 8\<rparr>]), (16, [])]"
    by (simp_all add: clones_heap_eq example_ev chunk_ev putBuf_def)
  have l1: "\<forall>a\<in>set [1, 0, 1]. \<not> r_isRecycle (readers clones_heap a) \<and> r_bufs (readers clones_heap a) = Some 0"
    using f by simp
  have l2: "\<forall>a\<in>set [2, 0, 1, 2]. \<not> r_isRecycle (readers clones_heap a) \<and> r_bufs (readers clones_heap a) = Some 0"
    using f by simp
  have c1: "card (set [1, 0, 1::nat]) = 2" by (simp add: card_insert_if)
  have c2: "card (set [2, 0, 1, 2::nat]) = 3" by (simp add: card_insert_if)
  show ?thesis
    using Recycle_all_without_reissue[OF l1, of "Some 1" 3]
      Recycle_all_without_reissue[OF l2, of "Some 1" 3] f p
    unfolding c1 c2 by simp
qed

subsection \<open>C2: appends build the concatenation\<close>

text \<open>
  Claim C2. With positive start and maximum sizes and reuse pools as \<^verbatim>\<open>putBuf\<close>
  leaves them, every finite sequence of \<^verbatim>\<open>AppendByte\<close>, \<^verbatim>\<open>AppendBytes\<close> and
  \<^verbatim>\<open>AppendString\<close> calls on a fresh buffer returns (no panic, no endless loop),
  whatever the pools hand out; \<^verbatim>\<open>Size\<close> is then the length of the concatenation of
  the appended strings, and \<^verbatim>\<open>BuildBytes\<close>, with any \<open>reuse\<close> argument, returns that
  concatenation. Nothing bounds the total length, so it may exceed the maximum size.
\<close>

theorem appends_build_concatenation:
  assumes "positive_sizes (config w)" and "pool_ok w"
  shows "\<exists>w' b'. apply_calls w new_Buffer cs = Some (Inr (w', b')) \<and>
           Size b' = int (length (concat (map call_bytes cs))) \<and>
           (\<forall>reuse. elems (fst (Buffer_BuildBytes w' b' reuse)) = concat (map call_bytes cs))"
proof -
  have "no_realloc new_Buffer" by (simp add: no_realloc_def new_Buffer_def)
  from apply_calls_ok[OF assms this, of cs] obtain w' b' where
    r: "apply_calls w new_Buffer cs = Some (Inr (w', b'))"
       "contents b' = contents new_Buffer @ concat (map call_bytes cs)" by auto
  have "contents new_Buffer = []" by (simp add: contents_def new_Buffer_def nil_chunk_def)
  then show ?thesis using r by (simp add: Size_contents Buffer_BuildBytes_contents)
qed

text \<open>
  The theorem of C2 for thirty bytes appended by the three methods under a maximum
  chunk size of 16.
\<close>

theorem appends_build_concatenation_witness:
  "positive_sizes (config small_pools) \<and> pool_ok small_pools \<and>
   MaxSize (config small_pools) < int (length (concat (map call_bytes thirty_bytes))) \<and>
   (\<exists>w' b'. apply_calls small_pools new_Buffer thirty_bytes = Some (Inr (w', b')) \<and>
      Size b' = 30 \<and>
      elems (fst (Buffer_BuildBytes w' b' [])) = ''hello world! abcdefghijklmnopq'')"
proof -
  have h1: "positive_sizes (config small_pools)"
    by (simp add: positive_sizes_def small_pools_def small_config_def)
  have h2: "pool_ok small_pools"
    by (simp add: pool_ok_def small_pools_def)
  have h3: "concat (map call_bytes thirty_bytes) = ''hello world! abcdefghijklmnopq''"
    by (simp add: thirty_bytes_def)
  have h4: "MaxSize (config small_pools) < int (length (concat (map call_bytes thirty_bytes)))"
    by (simp add: h3 small_pools_def small_config_def)
  from appends_build_concatenation[OF h1 h2, of thirty_bytes]
  show ?thesis using h1 h2 h4 unfolding h3 by auto
qed

subsection \<open>C3: reading from a closed reader\<close>

text \<open>
  Claim C3 says that every \<^verbatim>\<open>Read\<close> and \<^verbatim>\<open>WriteTo\<close> on a closed reader returns
  the closed-reader error, also when the reader has consumed all bytes. Both methods
  test for the end before they test the closed flag: the reader that has read all six
  bytes of \<open>abcdef\<close> and was then closed gets \<^verbatim>\<open>io.EOF\<close> from \<^verbatim>\<open>Read\<close> and no
  error from \<^verbatim>\<open>WriteTo\<close>.
\<close>

theorem closed_reader_at_end_counterexample:
  "closed_all_read_heap = snd (Close all_read_heap (Some 0)) \<and>
   r_isClose (readers closed_all_read_heap 0) \<and>
   Read closed_all_read_heap (Some 0) ''_'' = Inr ((''_'', 0, Some EOF), closed_all_read_heap) \<and>
   WriteTo closed_all_read_heap (Some 0) limited_sink 8 =
     Some (Inr ((0, None), 8, closed_all_read_heap)) \<and>
   EOF \<noteq> closedErr"
  by (simp add: closed_all_read_heap_def[symmetric])
     (simp add: closed_all_read_heap_eq zero_reader_def Read_def WriteTo_def Len_def)

text \<open>
  Claim C3 as amended. On a closed reader with bytes left to consume
  (\<^verbatim>\<open>offsetLen < Len()\<close>), \<^verbatim>\<open>Read\<close> and \<^verbatim>\<open>WriteTo\<close> return 0 bytes and
  \<^verbatim>\<open>closedErr\<close>, touch neither the destination nor the sink, and change nothing but the
  cached length. On a closed reader that has consumed all bytes, \<^verbatim>\<open>Read\<close> returns
  \<^verbatim>\<open>io.EOF\<close> and \<^verbatim>\<open>WriteTo\<close> returns no error. \<^verbatim>\<open>Close\<close> sets the flag.
\<close>

theorem closed_reader_errors:
  assumes "r_isClose (readers h a)"
  shows "(r_offsetLen (readers h a) < fst (Len h (Some a)) \<longrightarrow>
            Read h (Some a) p = Inr ((p, 0, Some closedErr), snd (Len h (Some a))) \<and>
            WriteTo h (Some a) wr s = Some (Inr ((0, Some closedErr), s, snd (Len h (Some a))))) \<and>
         (fst (Len h (Some a)) \<le> r_offsetLen (readers h a) \<longrightarrow>
            Read h (Some a) p = Inr ((p, 0, Some EOF), snd (Len h (Some a))) \<and>
            WriteTo h (Some a) wr s = Some (Inr ((0, None), s, snd (Len h (Some a))))) \<and>
         r_isClose (readers (snd (Close h0 (Some a))) a)"
  using assms by (simp add: Read_at_end WriteTo_at_end Read_closed WriteTo_closed Close_def)

text \<open>
  The theorem of C3 at the reader closed after three of the six bytes, and at the
  reader closed after all six.
\<close>

theorem closed_reader_errors_witness:
  "r_isClose (readers closed_half_read_heap 0) \<and>
   r_offsetLen (readers closed_half_read_heap 0) < fst (Len closed_half_read_heap (Some 0)) \<and>
   Read closed_half_read_heap (Some 0) ''___'' =
     Inr ((''___'', 0, Some closedErr), closed_half_read_heap) \<and>
   WriteTo closed_half_read_heap (Some 0) limited_sink 8 =
     Some (Inr ((0, Some closedErr), 8, closed_half_read_heap)) \<and>
   r_isClose (readers closed_all_read_heap 0) \<and>
   fst (Len closed_all_read_heap (Some 0)) \<le> r_offsetLen (readers closed_all_read_heap 0) \<and>
   Read closed_all_read_heap (Some 0) ''___'' =
     Inr ((''___'', 0, Some EOF), closed_all_read_heap)"
proof -
  have h1: "r_isClose (readers closed_half_read_heap 0)"
    by (simp add: closed_half_read_heap_eq zero_reader_def)
  have h2: "r_offsetLen (readers closed_half_read_heap 0) < fst (Len closed_half_read_heap (Some 0))"
    by (simp add: closed_half_read_heap_eq zero_reader_def Len_def)
  have h3: "snd (Len closed_half_read_heap (Some 0)) = closed_half_read_heap"
    by (simp add: closed_half_read_heap_eq zero_reader_def Len_def)
  have g1: "r_isClose (readers closed_all_read_heap 0)"
    by (simp add: closed_all_read_heap_eq zero_reader_def)
  have g2: "fst (Len closed_all_read_heap (Some 0)) \<le> r_offsetLen (readers closed_all_read_heap 0)"
    by (simp add: closed_all_read_heap_eq zero_reader_def Len_def)
  have g3: "snd (Len closed_all_read_heap (Some 0)) = closed_all_read_heap"
    by (simp add: closed_all_read_heap_eq zero_reader_def Len_def)
  show ?thesis
    using closed_reader_errors[OF h1, of "''___''" limited_sink 8]
      closed_reader_errors[OF g1, of "''___''" limited_sink 8] h1 h2 g1 g2
    by (simp add: h3 g3)
qed

subsection \<open>C4: the space \<^verbatim>\<open>EnsureSpace\<close> leaves\<close>

text \<open>
  Claim C4 says that after \<^verbatim>\<open>EnsureSpace(n)\<close> the active chunk has at least \<open>n\<close>
  free bytes. \<^verbatim>\<open>ensureSpaceSlow\<close> never reads its argument: on a fresh buffer under
  the default configuration, \<^verbatim>\<open>EnsureSpace(200)\<close> acquires a chunk of the start size,
  with 128 free bytes.
\<close>

theorem EnsureSpace_ignores_request:
  "EnsureSpace default_pools new_Buffer 200 = Inr (default_pools, empty_active) \<and>
   int (cap_of (Buf empty_active)) - int (len_of (Buf empty_active)) = 128"
  by (simp add: chunk_ev buffer_ev default_pools_def default_config_def empty_active_def)

subsection \<open>C5: the capacity asked of the pool\<close>

text \<open>
  Claim C5 says that the new chunk has the start size only when it is the first chunk
  of the buffer, and otherwise twice the capacity of the previous active chunk, capped.
  The code tests whether the active chunk is empty, not whether there is one: under
  the default configuration the buffer that \<^verbatim>\<open>EnsureSpace(200)\<close> left with an empty
  chunk of capacity 128 gets another chunk of capacity 128, not 256.
\<close>

theorem ensureSpaceSlow_empty_chunk_counterexample:
  "EnsureSpace default_pools new_Buffer 200 = Inr (default_pools, empty_active) \<and>
   cap_of (Buf empty_active) = 128 \<and>
   map_sum id (cap_of \<circ> Buf \<circ> snd) (ensureSpaceSlow default_pools empty_active 200) = Inr 128 \<and>
   StartSize (config default_pools) = 128 \<and>
   min (MaxSize (config default_pools)) (2 * int (cap_of (Buf empty_active))) = 256"
  by (simp add: default_pools_def default_config_def empty_active_def chunk_ev buffer_ev)

text \<open>
  Claim C5 as amended. The capacity \<open>l\<close> that \<^verbatim>\<open>ensureSpaceSlow\<close> asks of
  \<^verbatim>\<open>getBuf\<close> is the minimum of the maximum size and: the start size when the active
  chunk is empty (as it is for the first chunk of a buffer), twice the capacity of
  \<^verbatim>\<open>toPool\<close> otherwise. With reuse pools as \<^verbatim>\<open>putBuf\<close> leaves them, the call
  returns with a new, empty active chunk of exactly that capacity (and panics in
  \<^verbatim>\<open>make\<close> when \<open>l\<close> is negative). \<open>l\<close> is the start size itself when that does not
  exceed the maximum size, and twice the active chunk's capacity, capped, when the
  active chunk was never reallocated.
\<close>

theorem ensureSpaceSlow_requested_capacity:
  assumes "pool_ok w"
  shows "let l = min (MaxSize (config w))
                   (if len_of (Buf b) = 0 then StartSize (config w)
                    else 2 * int (cap_of (toPool b)))
         in (l < 0 \<longrightarrow> ensureSpaceSlow w b s = Inl MakeSliceCap) \<and>
            (0 \<le> l \<longrightarrow>
               (\<exists>w' b' w1. ensureSpaceSlow w b s = Inr (w', b') \<and>
                  getBuf w1 l = Inr (Buf b', w') \<and>
                  int (cap_of (Buf b')) = l \<and> len_of (Buf b') = 0 \<and> toPool b' = Buf b')) \<and>
            (0 < len_of (Buf b) \<and> no_realloc b \<longrightarrow>
               l = min (MaxSize (config w)) (2 * int (cap_of (Buf b)))) \<and>
            (len_of (Buf b) = 0 \<and> StartSize (config w) \<le> MaxSize (config w) \<longrightarrow>
               l = StartSize (config w))"
proof -
  define l1 where "l1 = (if 0 < len_of (Buf b) then int (cap_of (toPool b)) * 2 else StartSize (config w))"
  define l where "l = (if l1 > MaxSize (config w) then MaxSize (config w) else l1)"
  define w1 where "w1 = (if 0 < len_of (Buf b) \<and> cap_of (toPool b) \<noteq> cap_of (Buf b)
                         then putBuf w (toPool b) else w)"
  define b1 where "b1 = (if 0 < len_of (Buf b) then b\<lparr>bufs := bufs b @ [Buf b]\<rparr> else b)"
  have unf: "ensureSpaceSlow w b s =
      (case getBuf w1 l of Inl e \<Rightarrow> Inl e | Inr (c, w2) \<Rightarrow> Inr (w2, b1\<lparr>Buf := c, toPool := c\<rparr>))"
    unfolding ensureSpaceSlow_def Let_def l_def l1_def w1_def b1_def
    by (cases "0 < len_of (Buf b)"; cases "cap_of (toPool b) \<noteq> cap_of (Buf b)") simp_all
  have lmin: "min (MaxSize (config w))
             (if len_of (Buf b) = 0 then StartSize (config w) else 2 * int (cap_of (toPool b))) = l"
    by (simp add: l_def l1_def min_def)
  have ok1: "pool_ok w1" using assms by (simp add: w1_def pool_ok_putBuf)
  have neg: "ensureSpaceSlow w b s = Inl MakeSliceCap" if "l < 0"
  proof (cases "getBuf w1 l")
    case (Inl e)
    then have "e = MakeSliceCap"
      by (auto simp: getBuf_def make_bytes_def Let_def split: option.splits prod.splits if_splits)
    then show ?thesis using Inl by (simp add: unf)
  next
    case (Inr r)
    then show ?thesis using getBuf_Inr[OF ok1, of l "fst r" "snd r"] that by simp
  qed
  have pos: "\<exists>w' b' w1. ensureSpaceSlow w b s = Inr (w', b') \<and> getBuf w1 l = Inr (Buf b', w') \<and>
                int (cap_of (Buf b')) = l \<and> len_of (Buf b') = 0 \<and> toPool b' = Buf b'"
    if "0 \<le> l"
  proof -
    from getBuf_ok[OF ok1 that] obtain c w' where
      g: "getBuf w1 l = Inr (c, w')" "elems c = []" "int (spare c) = l" by auto
    have "ensureSpaceSlow w b s = Inr (w', b1\<lparr>Buf := c, toPool := c\<rparr>)" using g(1) by (simp add: unf)
    moreover have "int (cap_of c) = l" "len_of c = 0" using g(2,3) by (simp_all add: cap_of_def len_of_def)
    ultimately show ?thesis using g(1) by auto
  qed
  have nr: "l = min (MaxSize (config w)) (2 * int (cap_of (Buf b)))"
    if "0 < len_of (Buf b)" "no_realloc b"
    using that by (simp add: lmin[symmetric] no_realloc_def)
  have st: "l = StartSize (config w)"
    if "len_of (Buf b) = 0" "StartSize (config w) \<le> MaxSize (config w)"
    using that by (simp add: lmin[symmetric])
  show ?thesis
    unfolding Let_def lmin using neg pos nr st by blast
qed

text \<open>
  The theorem of C5 for a full first chunk of capacity 4 under a maximum size of 16:
  the next chunk has capacity 8.
\<close>

theorem ensureSpaceSlow_requested_capacity_witness:
  "pool_ok small_pools \<and>
   min (MaxSize (config small_pools)) (2 * int (cap_of \<lparr>elems = ''hell'', spare = 0\<rparr>)) = 8 \<and>
   ensureSpaceSlow small_pools
      \<lparr>Buf = \<lparr>elems = ''hell'', spare = 0\<rparr>, toPool = \<lparr>elems = [], spare = 4\<rparr>, bufs = []\<rparr> 1 =
     Inr (small_pools,
      \<lparr>Buf = \<lparr>elems = [], spare = 8\<rparr>, toPool = \<lparr>elems = [], spare = 8\<rparr>,
       bufs = [\<lparr>elems = ''hell'', spare = 0\<rparr>]\<rparr>) \<and>
   (\<exists>w' b' w1. ensureSpaceSlow small_pools
      \<lparr>Buf = \<lparr>elems = ''hell'', spare = 0\<rparr>, toPool = \<lparr>elems = [], spare = 4\<rparr>, bufs = []\<rparr> 1 =
        Inr (w', b') \<and>
      getBuf w1 8 = Inr (Buf b', w') \<and> int (cap_of (Buf b')) = 8)"
proof -
  have h1: "pool_ok small_pools" by (simp add: pool_ok_def small_pools_def)
  have h2: "ensureSpaceSlow small_pools
      \<lparr>Buf = \<lparr>elems = ''hell'', spare = 0\<rparr>, toPool = \<lparr>elems = [], spare = 4\<rparr>, bufs = []\<rparr> 1 =
     Inr (small_pools,
      \<lparr>Buf = \<lparr>elems = [], spare = 8\<rparr>, toPool = \<lparr>elems = [], spare = 8\<rparr>,
       bufs = [\<lparr>elems = ''hell'', spare = 0\<rparr>]\<rparr>)"
    by (simp add: small_pools_def small_config_def chunk_ev buffer_ev)
  have h3: "min (MaxSize (config small_pools)) (2 * int (cap_of \<lparr>elems = ''hell'', spare = 0\<rparr>)) = 8"
    by (simp add: small_pools_def small_config_def cap_of_def)
  have h4: "min (MaxSize (config small_pools))
       (if len_of (Buf \<lparr>Buf = \<lparr>elems = ''hell'', spare = 0\<rparr>, toPool = \<lparr>elems = [], spare = 4\<rparr>,
                        bufs = []\<rparr>) = 0
        then StartSize (config small_pools)
        else 2 * int (cap_of (toPool \<lparr>Buf = \<lparr>elems = ''hell'', spare = 0\<rparr>,
                        toPool = \<lparr>elems = [], spare = 4\<rparr>, bufs = []\<rparr>))) = 8"
    by (simp add: small_pools_def small_config_def cap_of_def len_of_def)
  from ensureSpaceSlow_requested_capacity[OF h1,
      of "\<lparr>Buf = \<lparr>elems = ''hell'', spare = 0\<rparr>, toPool = \<lparr>elems = [], spare = 4\<rparr>, bufs = []\<rparr>" 1]
  have "\<exists>w' b' w1. ensureSpaceSlow small_pools
      \<lparr>Buf = \<lparr>elems = ''hell'', spare = 0\<rparr>, toPool = \<lparr>elems = [], spare = 4\<rparr>, bufs = []\<rparr> 1 =
        Inr (w', b') \<and>
      getBuf w1 8 = Inr (Buf b', w') \<and> int (cap_of (Buf b')) = 8"
    unfolding Let_def h4 by auto
  then show ?thesis using h1 h2 h3 by blast
qed

subsection \<open>C6: flushing to a sink that fails\<close>

text \<open>
  Claim C6 says that the chunks written before a write error are still released to
  the pool. \<^verbatim>\<open>DumpTo\<close> does so; \<^verbatim>\<open>Buffer.WriteTo\<close> returns from inside its loop.
  On the buffer that thirty appended bytes leave, with a sink that takes twelve bytes,
  the chunks of capacities 4 and 8 are written and the third write fails:
  \<^verbatim>\<open>WriteTo\<close> returns 12 and the error and leaves pool and buffer as they were (the
  chunk of capacity 8 is not released), while \<^verbatim>\<open>DumpTo\<close> returns the same, releases
  every chunk and resets the buffer.
\<close>

theorem WriteTo_error_releases_nothing:
  "apply_calls small_pools new_Buffer thirty_bytes = Some (Inr (small_pools, spilled)) \<and>
   buffers small_pools = [(8, []), (16, [])] \<and>
   Buffer_WriteTo small_pools spilled limited_sink 12 =
     ((12, Some (SinkError 1)), 0, small_pools, spilled) \<and>
   (case DumpTo small_pools spilled limited_sink 12 of
      (res, s, w, b) \<Rightarrow> (res, buffers w, b)) =
     ((12, Some (SinkError 1)),
      [(8, [\<lparr>elems = [], spare = 8\<rparr>]),
       (16, [\<lparr>elems = [], spare = 16\<rparr>, \<lparr>elems = [], spare = 16\<rparr>])],
      \<lparr>Buf = nil_chunk, toPool = nil_chunk, bufs = []\<rparr>)"
  by (simp add: Buffer_WriteTo_def DumpTo_def limited_sink_def spilled_def small_pools_def
        small_config_def chunk_ev buffer_ev thirty_bytes_def AppendByte_def AppendBytes_def
        AppendString_def appendBytesSlow.simps appendStringSlow.simps)

subsection \<open>C7: cloning\<close>

text \<open>
  Claim C7. Let reader \<open>a\<close> hold the shared chunk set \<open>s\<close>. Then \<^verbatim>\<open>Clone\<close> returns a
  reader \<open>d\<close>, adds exactly one to the reference count of \<open>s\<close> and leaves the chunks of
  \<open>s\<close> and every reader but \<open>d\<close> as they were; \<open>d\<close> is over the same set, at position
  0, neither closed nor recycled, whatever the position and the flags of \<open>a\<close>; and
  \<^verbatim>\<open>Bytes\<close> of \<open>d\<close> equals \<^verbatim>\<open>Bytes\<close> of \<open>a\<close>, the concatenation of the chunks of
  \<open>s\<close> from the first on, wherever \<open>a\<close> stands. When \<open>a\<close> is not recycled and the
  pool of reader objects holds recycled readers only, \<open>d\<close> is another object than \<open>a\<close>.
\<close>

theorem Clone_fresh_cursor:
  assumes "r_bufs (readers h a) = Some s"
  shows "\<exists>d h'. Clone h (Some a) = (Some d, h') \<and>
           rc_isRecycle (recyclables h' s) = rc_isRecycle (recyclables h s) + 1 \<and>
           rc_data (recyclables h' s) = rc_data (recyclables h s) \<and>
           readers h' d = \<lparr>r_bufs = Some s, r_offset = 0, r_index = 0, r_offsetLen = 0,
                           r_size = 0, r_isClose = False, r_isRecycle = False\<rparr> \<and>
           (\<forall>x. x \<noteq> d \<longrightarrow> readers h' x = readers h x) \<and>
           map_sum id (elems \<circ> fst) (Bytes h' (Some d)) =
             map_sum id (elems \<circ> fst) (Bytes h (Some a)) \<and>
           map_sum id (elems \<circ> fst) (Bytes h (Some a)) =
             Inr (concat (map elems (rc_data (recyclables h s)))) \<and>
           (\<not> r_isRecycle (readers h a) \<and> a < readers_next h \<and> reader_pool_ok h \<longrightarrow> d \<noteq> a)"
proof -
  define h1 where "h1 = h\<lparr>recyclables := (recyclables h)
     (s := (recyclables h s)\<lparr>rc_isRecycle := rc_isRecycle (recyclables h s) + 1\<rparr>)\<rparr>"
  obtain d h2 where g: "recyclableReadCloserPool_Get h1 = (d, h2)"
    by (cases "recyclableReadCloserPool_Get h1")
  define h' where "h' = h2\<lparr>readers := (readers h2)(d := zero_reader\<lparr>r_bufs := Some s\<rparr>)\<rparr>"
  have cl: "Clone h (Some a) = (Some d, h')"
    using assms g by (simp add: Clone_def h1_def h'_def)
  note gc = recyclableReadCloserPool_Get_cases[OF g]
  have mem: "d \<in> set (recyclableReadCloserPool h) \<or> d = readers_next h"
    using gc(1) by (simp add: h1_def)
  have da: "d \<noteq> a" if "\<not> r_isRecycle (readers h a)" "a < readers_next h" "reader_pool_ok h"
    using mem that by (auto simp: reader_pool_ok_def list_all_iff)
  have rec: "recyclables h' = recyclables h1" using gc(2) by (simp add: h'_def)
  have oth: "readers h' x = readers h x" if "x \<noteq> d" for x
    using gc(3)[OF that] that by (simp add: h'_def h1_def)
  have rd: "readers h' d = zero_reader\<lparr>r_bufs := Some s\<rparr>" by (simp add: h'_def)
  have bd: "r_bufs (readers h' d) = Some s" by (simp add: rd)
  have data: "rc_data (recyclables h' s) = rc_data (recyclables h s)" by (simp add: rec h1_def)
  have cnt: "rc_isRecycle (recyclables h' s) = rc_isRecycle (recyclables h s) + 1"
    by (simp add: rec h1_def)
  from Bytes_live[OF bd] have b1: "map_sum id (elems \<circ> fst) (Bytes h' (Some d)) =
      Inr (concat (map elems (rc_data (recyclables h s))))"
    by (auto simp: data)
  from Bytes_live[OF assms] have b2: "map_sum id (elems \<circ> fst) (Bytes h (Some a)) =
      Inr (concat (map elems (rc_data (recyclables h s))))"
    by auto
  have rd': "readers h' d = \<lparr>r_bufs = Some s, r_offset = 0, r_index = 0, r_offsetLen = 0,
                           r_size = 0, r_isClose = False, r_isRecycle = False\<rparr>"
    by (simp add: rd zero_reader_def)
  show ?thesis
    using cl cnt data rd' oth b1 b2 da by auto
qed

text \<open>
  The theorem of C7 at a reader that has read three of its six bytes, where the pool
  hands out the reader object recycled before (address 3).
\<close>

theorem Clone_fresh_cursor_witness:
  "r_bufs (readers (clones_heap\<lparr>sched := [Some 0]\<rparr>) 0) = Some 0 \<and>
   \<not> r_isRecycle (readers (clones_heap\<lparr>sched := [Some 0]\<rparr>) 0) \<and>
   0 < readers_next (clones_heap\<lparr>sched := [Some 0]\<rparr>) \<and>
   reader_pool_ok (clones_heap\<lparr>sched := [Some 0]\<rparr>) \<and>
   r_offsetLen (readers (clones_heap\<lparr>sched := [Some 0]\<rparr>) 0) = 3 \<and>
   rc_isRecycle (recyclables (clones_heap\<lparr>sched := [Some 0]\<rparr>) 0) = 3 \<and>
   fst (Clone (clones_heap\<lparr>sched := [Some 0]\<rparr>) (Some 0)) = Some 3 \<and>
   (\<exists>d h'. Clone (clones_heap\<lparr>sched := [Some 0]\<rparr>) (Some 0) = (Some d, h') \<and> d \<noteq> 0 \<and>
      rc_isRecycle (recyclables h' 0) = 4 \<and>
      readers h' d = \<lparr>r_bufs = Some 0, r_offset = 0, r_index = 0, r_offsetLen = 0,
                      r_size = 0, r_isClose = False, r_isRecycle = False\<rparr> \<and>
      map_sum id (elems \<circ> fst) (Bytes h' (Some d)) = Inr ''abcdef'' \<and>
      map_sum id (elems \<circ> fst) (Bytes (clones_heap\<lparr>sched := [Some 0]\<rparr>) (Some 0)) = Inr ''abcdef'')"
proof -
  let ?h = "clones_heap\<lparr>sched := [Some 0]\<rparr>"
  have h1: "r_bufs (readers ?h 0) = Some 0" by (simp add: clones_heap_eq zero_reader_def)
  have h2: "\<not> r_isRecycle (readers ?h 0)" by (simp add: clones_heap_eq zero_reader_def)
  have h3: "0 < readers_next ?h" by (simp add: clones_heap_eq)
  have h4: "reader_pool_ok ?h" by (simp add: clones_heap_eq reader_pool_ok_def zero_reader_def)
  have h5: "r_offsetLen (readers ?h 0) = 3" "rc_isRecycle (recyclables ?h 0) = 3"
    "concat (map elems (rc_data (recyclables ?h 0))) = ''abcdef''"
    by (simp_all add: clones_heap_eq zero_reader_def abcdef_set_def)
  have h6: "fst (Clone ?h (Some 0)) = Some 3"
    by (simp add: clones_heap_eq example_ev chunk_ev reader_ev)
  show ?thesis
    using Clone_fresh_cursor[OF h1] h1 h2 h3 h4 h5 h6 by auto
qed

subsection \<open>C8: a zero-length read at the end\<close>

text \<open>
  Claim C8 says that a \<^verbatim>\<open>Read\<close> into a destination of length 0 returns no error
  when the reader is at its end. \<^verbatim>\<open>Read\<close> has a branch that returns \<open>(0, nil)\<close> for
  such a destination, but the test for the end at its top returns \<^verbatim>\<open>io.EOF\<close> first:
  the open reader that has read all six bytes gets \<^verbatim>\<open>io.EOF\<close> for an empty
  destination as for a non-empty one.
\<close>

theorem Read_zero_length_at_end:
  "\<not> r_isClose (readers all_read_heap 0) \<and>
   r_offsetLen (readers all_read_heap 0) = 6 \<and>
   fst (Len all_read_heap (Some 0)) = 6 \<and>
   Read all_read_heap (Some 0) [] = Inr (([], 0, Some EOF), all_read_heap) \<and>
   Read all_read_heap (Some 0) ''_'' = Inr ((''_'', 0, Some EOF), all_read_heap)"
  by (simp add: all_read_heap_eq zero_reader_def Read_def Len_def)

subsection \<open>C9: \<^verbatim>\<open>Bytes\<close>\<close>

text \<open>
  Claim C9 says that \<^verbatim>\<open>Bytes\<close> returns the content not yet consumed. It returns
  the whole content: after three bytes have been read of \<open>abcdef\<close>, a \<^verbatim>\<open>Read\<close>
  delivers \<open>def\<close> and \<^verbatim>\<open>Bytes\<close> returns \<open>abcdef\<close>.
\<close>

theorem Bytes_ignores_position_counterexample:
  "r_offsetLen (readers half_read_heap 0) = 3 \<and>
   map_sum id fst (Read half_read_heap (Some 0) ''______'') = Inr (''def___'', 3, Some EOF) \<and>
   map_sum id (elems \<circ> fst) (Bytes half_read_heap (Some 0)) = Inr ''abcdef'' \<and>
   ''abcdef'' \<noteq> ''def''"
  by (simp add: half_read_heap_eq example_ev chunk_ev reader_ev Bytes_def)

text \<open>
  Claim C9 as amended. For a reader that holds its shared chunk set, \<^verbatim>\<open>Bytes\<close>
  returns the concatenation of all chunks of the set, consumed or not, in one slice,
  and changes nothing but the cached length: chunk index, offset and consumed count
  are as before.
\<close>

theorem Bytes_whole_content:
  assumes "r_bufs (readers h a) = Some s"
  shows "\<exists>c. Bytes h (Some a) = Inr (c, snd (Len h (Some a))) \<and>
           elems c = concat (map elems (rc_data (recyclables h s))) \<and>
           r_index (readers (snd (Len h (Some a))) a) = r_index (readers h a) \<and>
           r_offset (readers (snd (Len h (Some a))) a) = r_offset (readers h a) \<and>
           r_offsetLen (readers (snd (Len h (Some a))) a) = r_offsetLen (readers h a)"
  using Bytes_live[OF assms] by simp

text \<open>
  The theorem of C9 at the reader that has read three of the six bytes.
\<close>

theorem Bytes_whole_content_witness:
  "r_bufs (readers half_read_heap 0) = Some 0 \<and>
   r_offsetLen (readers half_read_heap 0) = 3 \<and>
   (\<exists>c. Bytes half_read_heap (Some 0) = Inr (c, half_read_heap) \<and> elems c = ''abcdef'')"
proof -
  have h1: "r_bufs (readers half_read_heap 0) = Some 0"
    by (simp add: half_read_heap_eq zero_reader_def)
  have h2: "snd (Len half_read_heap (Some 0)) = half_read_heap"
    by (simp add: half_read_heap_eq zero_reader_def Len_def)
  have h3: "concat (map elems (rc_data (recyclables half_read_heap 0))) = ''abcdef''"
    by (simp add: half_read_heap_eq abcdef_set_def)
  have h4: "r_offsetLen (readers half_read_heap 0) = 3"
    by (simp add: half_read_heap_eq zero_reader_def)
  show ?thesis
    using Bytes_whole_content[OF h1] h1 h4 by (auto simp: h2 h3)
qed

subsection \<open>C10: methods on a nil reader\<close>

text \<open>
  Claim C10 says that every public method tolerates a nil receiver. \<^verbatim>\<open>Read\<close>,
  \<^verbatim>\<open>Close\<close>, \<^verbatim>\<open>Recycle\<close>, \<^verbatim>\<open>Len\<close>, \<^verbatim>\<open>Clone\<close>, \<^verbatim>\<open>WriteTo\<close> and
  \<^verbatim>\<open>Bytes\<close> test for nil and return as the claim says; \<^verbatim>\<open>Reset\<close> and
  \<^verbatim>\<open>BuildBytes\<close> read a field of the receiver without the test and panic.
\<close>

theorem nil_receiver_methods:
  "Read h None p = Inr ((p, 0, Some EOF), h) \<and>
   Close h None = (None, h) \<and>
   Recycle h None = h \<and>
   Len h None = (0, h) \<and>
   Clone h None = (None, h) \<and>
   WriteTo h None wr s = Some (Inr ((0, None), s, h)) \<and>
   Bytes h None = Inr (nil_chunk, h) \<and>
   Reset h None = Inl NilDereference \<and>
   BuildBytes h None reuse = Inl NilDereference"
  by (simp add: Read_def Close_def Recycle_def Clone_def WriteTo_def Bytes_def Reset_def
        BuildBytes_def)

end
